theory Spec2Isabelle
  imports Main "HOL-Library.AList"
begin

chapter \<open>The send queue, the session failover and the reply correlator of the WhatsApp gateway\<close>

text \<open>
  The repository is a Node.js HTTP gateway in front of one whatsapp-web.js session. The file
  \<^verbatim>\<open>src/main.js\<close> is the current version; \<^verbatim>\<open>src/unnamed/part_000\<close> holds two
  earlier variants (\<^verbatim>\<open>main.queue.js\<close>, with \<^verbatim>\<open>processQueue\<close> and
  \<^verbatim>\<open>waitForClientReady\<close>, and a copy of the \<^verbatim>\<open>TaskQueue\<close> version), and
  \<^verbatim>\<open>src/unnamed/part_001\<close> the version without a queue.

  Node.js runs the program on one thread. A handler runs without interruption until it returns
  or reaches an \<^verbatim>\<open>await\<close>; what resumes it later is an event: a timer that fires, a
  promise of the provider that settles, an event the provider emits, an HTTP request. The
  embedding therefore gives every component a state record and one function per handler, and a
  run of the program is a list of events folded over the state. The continuations that a handler
  schedules as microtasks run before the next event and are part of the same step.
\<close>

section \<open>The embedding\<close>

subsection \<open>Errors\<close>

text \<open>
  A JavaScript \<^verbatim>\<open>new Error(message)\<close>. The timer of \<^verbatim>\<open>_runWithTimeout\<close> rejects with
  the message \<^verbatim>\<open>Job timed out after <ms>ms\<close>, built by a template literal from the
  number \<^verbatim>\<open>ms\<close>; the budgets of the source are the integer literals 30000, 45000 and
  120000, so \<^verbatim>\<open>ms\<close> is a natural number and is rendered in decimal.
\<close>

datatype error = Error string

definition digit :: "nat \<Rightarrow> char" where
  "digit d = ''0123456789'' ! d"

fun decimal :: "nat \<Rightarrow> string" where
  "decimal n = (if n < 10 then [digit n] else decimal (n div 10) @ [digit (n mod 10)])"

declare decimal.simps [simp del]

definition timeout_error :: "nat \<Rightarrow> error" where
  "timeout_error ms = Error (''Job timed out after '' @ decimal ms @ ''ms'')"

subsection \<open>The class \<^verbatim>\<open>TaskQueue\<close> (src/main.js, lines 41 to 97)\<close>

text \<open>
  \<^verbatim>\<open>
  class TaskQueue {
    constructor() { this.queue = []; this.processing = false }
    enqueue(fn, { timeoutMs = 30000 } = {}) {
      return new Promise((resolve, reject) => {
        const job = { fn, resolve, reject, timeoutMs, timer: null }
        this.queue.push(job)
        this._process().catch(...)
      })
    }
    async _process() {
      if (this.processing) return
      this.processing = true
      while (this.queue.length) {
        const job = this.queue.shift()
        try {
          const result = await this._runWithTimeout(job.fn, job.timeoutMs)
          job.resolve(result)
        } catch (err) { job.reject(err) }
      }
      this.processing = false
    }
    _runWithTimeout(fn, ms) {
      return new Promise((resolve, reject) => {
        let finished = false
        const timer = setTimeout(() => {
          if (finished) return
          finished = true
          reject(new Error("Job timed out after <ms>ms"))
        }, ms)
        fn().then(r => {
          if (finished) return
          finished = true; clearTimeout(timer); resolve(r)
        }).catch(e => {
          if (finished) return
          finished = true; clearTimeout(timer); reject(e)
        })
      })
    }
  }
  \<close>

  A job is identified by its insertion number \<open>jid\<close>: its action \<^verbatim>\<open>fn\<close> and the
  \<^verbatim>\<open>resolve\<close>/\<^verbatim>\<open>reject\<close> pair of the caller's promise are closures, and the model
  records what happens to them in the \<open>history\<close> of the queue: \<open>Started i\<close> when
  \<^verbatim>\<open>fn()\<close> of job \<open>i\<close> is invoked, \<open>Settled i out\<close> when \<^verbatim>\<open>job.resolve\<close>
  (\<open>out = Inr result\<close>) or \<^verbatim>\<open>job.reject\<close> (\<open>out = Inl err\<close>) of job \<open>i\<close> is
  called. What the action does is not the queue's business: its promise settles by a later
  event.

  Every call of \<^verbatim>\<open>_runWithTimeout\<close> creates a closure with the local \<^verbatim>\<open>finished\<close>
  and the timer; the record \<open>run\<close> is that closure (\<open>timer\<close> says that the timeout is
  still pending: set, neither fired nor cleared), and \<open>runs\<close> maps a job to the closure of
  its run. A closure outlives its job: the action of a job that timed out may still settle
  later, and then finds \<^verbatim>\<open>finished\<close> set.
\<close>

record job =
  jid :: nat
  timeoutMs :: nat

record run =
  ms :: nat
  finished :: bool
  timer :: bool

datatype 'v obs = Started nat | Settled nat "error + 'v"

record 'v task_queue =
  queue :: "job list"
  processing :: bool
  runs :: "nat \<Rightarrow> run option"
  submitted :: nat
  history :: "'v obs list"

definition new_queue :: "'v task_queue" where
  "new_queue = \<lparr>queue = [], processing = False, runs = (\<lambda>_. None), submitted = 0, history = []\<rparr>"

text \<open>\<^verbatim>\<open>_runWithTimeout(job.fn, job.timeoutMs)\<close> up to the point where it returns its
  promise: the closure is created, the timer set and \<^verbatim>\<open>fn()\<close> invoked.\<close>

definition runWithTimeout :: "job \<Rightarrow> 'v task_queue \<Rightarrow> 'v task_queue" where
  "runWithTimeout j q =
     q\<lparr>runs := (runs q)(jid j \<mapsto> \<lparr>ms = timeoutMs j, finished = False, timer = True\<rparr>),
       history := history q @ [Started (jid j)]\<rparr>"

text \<open>The \<^verbatim>\<open>while\<close> loop of \<^verbatim>\<open>_process\<close> from its head to the next
  \<^verbatim>\<open>await\<close>, or to its end when the queue is empty.\<close>

definition process_loop :: "'v task_queue \<Rightarrow> 'v task_queue" where
  "process_loop q =
     (case queue q of
        [] \<Rightarrow> q\<lparr>processing := False\<rparr>
      | j # js \<Rightarrow> runWithTimeout j (q\<lparr>queue := js\<rparr>))"

definition process :: "'v task_queue \<Rightarrow> 'v task_queue" where
  "process q = (if processing q then q else process_loop (q\<lparr>processing := True\<rparr>))"

definition enqueue :: "nat \<Rightarrow> 'v task_queue \<Rightarrow> 'v task_queue" where
  "enqueue t q =
     process (q\<lparr>queue := queue q @ [\<lparr>jid = submitted q, timeoutMs = t\<rparr>],
                submitted := Suc (submitted q)\<rparr>)"

text \<open>The promise of run \<open>i\<close> has settled with \<open>out\<close>: \<^verbatim>\<open>_process\<close> resumes after its
  \<^verbatim>\<open>await\<close> in the iteration of job \<open>i\<close>, calls \<^verbatim>\<open>job.resolve\<close> or
  \<^verbatim>\<open>job.reject\<close>, and goes back to the head of the loop.\<close>

definition resume :: "nat \<Rightarrow> error + 'v \<Rightarrow> 'v task_queue \<Rightarrow> 'v task_queue" where
  "resume i out q = process_loop (q\<lparr>history := history q @ [Settled i out]\<rparr>)"

text \<open>The promise of \<^verbatim>\<open>fn()\<close> of job \<open>i\<close> settles: the \<^verbatim>\<open>then\<close> callback
  (\<open>out = Inr r\<close>) or the \<^verbatim>\<open>catch\<close> callback (\<open>out = Inl e\<close>) of its run. An action
  that was never invoked has no run and cannot settle.\<close>

definition action_settles :: "nat \<Rightarrow> error + 'v \<Rightarrow> 'v task_queue \<Rightarrow> 'v task_queue" where
  "action_settles i out q =
     (case runs q i of
        None \<Rightarrow> q
      | Some r \<Rightarrow>
          if finished r then q
          else resume i out (q\<lparr>runs := (runs q)(i \<mapsto> r\<lparr>finished := True, timer := False\<rparr>)\<rparr>))"

text \<open>The timeout of run \<open>i\<close> fires (only a pending timer can).\<close>

definition timer_fires :: "nat \<Rightarrow> 'v task_queue \<Rightarrow> 'v task_queue" where
  "timer_fires i q =
     (case runs q i of
        None \<Rightarrow> q
      | Some r \<Rightarrow>
          if \<not> timer r then q
          else if finished r then q\<lparr>runs := (runs q)(i \<mapsto> r\<lparr>timer := False\<rparr>)\<rparr>
          else resume i (Inl (timeout_error (ms r)))
                 (q\<lparr>runs := (runs q)(i \<mapsto> r\<lparr>finished := True, timer := False\<rparr>)\<rparr>))"

datatype 'v event = Enqueue nat | ActionSettles nat "error + 'v" | TimerFires nat

fun step :: "'v task_queue \<Rightarrow> 'v event \<Rightarrow> 'v task_queue" where
  "step q (Enqueue t) = enqueue t q"
| "step q (ActionSettles i out) = action_settles i out q"
| "step q (TimerFires i) = timer_fires i q"

definition run_events :: "'v event list \<Rightarrow> 'v task_queue" where
  "run_events evs = foldl step new_queue evs"

text \<open>Readers of a run: the budgets of the submitted jobs in submission order, the calls of
  \<^verbatim>\<open>job.resolve\<close>/\<^verbatim>\<open>job.reject\<close> in the order they were made, and the history
  reduced to (job, settled?) pairs. \<open>serial d\<close> is the history of \<open>d\<close> jobs run strictly
  one after the other.\<close>

fun budgets :: "'v event list \<Rightarrow> nat list" where
  "budgets [] = []"
| "budgets (Enqueue t # evs) = t # budgets evs"
| "budgets (e # evs) = budgets evs"

fun key :: "'v obs \<Rightarrow> nat \<times> bool" where
  "key (Started i) = (i, False)"
| "key (Settled i out) = (i, True)"

fun outcomes :: "'v obs list \<Rightarrow> (nat \<times> (error + 'v)) list" where
  "outcomes [] = []"
| "outcomes (Started i # h) = outcomes h"
| "outcomes (Settled i out # h) = (i, out) # outcomes h"

definition serial :: "nat \<Rightarrow> (nat \<times> bool) list" where
  "serial d = concat (map (\<lambda>i. [(i, False), (i, True)]) [0..<d])"

subsection \<open>The invariant of the processing loop\<close>

text \<open>
  After \<open>d\<close> settled jobs of budgets \<open>bs\<close>: the history is serial, followed by the start
  of job \<open>d\<close> exactly when the loop is active; the queue holds the later jobs in order; the
  runs of the settled jobs are finished with no timer pending, the run of job \<open>d\<close> is the only
  unfinished one, and no later job has a run.
\<close>

definition job_of :: "nat list \<Rightarrow> nat \<Rightarrow> job" where
  "job_of bs i = \<lparr>jid = i, timeoutMs = bs ! i\<rparr>"

definition tq_inv :: "nat list \<Rightarrow> nat \<Rightarrow> 'v task_queue \<Rightarrow> bool" where
  "tq_inv bs d q \<longleftrightarrow>
     map key (history q) = serial d @ (if processing q then [(d, False)] else []) \<and>
     queue q = map (job_of bs) [(if processing q then Suc d else d) ..< submitted q] \<and>
     (if processing q then d < submitted q else d = submitted q) \<and>
     length bs = submitted q \<and>
     (\<forall>i < d. \<exists>r. runs q i = Some r \<and> finished r \<and> \<not> timer r) \<and>
     (processing q \<longrightarrow> runs q d = Some \<lparr>ms = bs ! d, finished = False, timer = True\<rparr>) \<and>
     (\<forall>i. (if processing q then d < i else d \<le> i) \<longrightarrow> runs q i = None)"

subsection \<open>The reply correlator: \<^verbatim>\<open>/esperar\<close>, the message handler, \<^verbatim>\<open>/respuesta\<close> (src/main.js)\<close>

text \<open>
  Four module-level maps (lines 23 to 26):
  \<^verbatim>\<open>
  const esperas = new Map()      // chatId -> idMensaje
  const respuestas = new Map()   // idMensaje -> message
  const resolvers = new Map()    // idMensaje -> [resolve1, resolve2]
  const timeouts = new Map()     // idMensaje -> TimeoutID
  \<close>
  A JavaScript \<^verbatim>\<open>Map\<close> keeps its keys in insertion order, \<^verbatim>\<open>set\<close> on a present key
  replaces the value in place and \<^verbatim>\<open>delete\<close> removes the entry: an association list with
  \<^const>\<open>AList.update\<close>, \<^const>\<open>AList.delete\<close> and \<^const>\<open>map_of\<close>.

  A \<^verbatim>\<open>resolve\<close> callback stored in \<^verbatim>\<open>resolvers\<close> belongs to one suspended
  \<^verbatim>\<open>GET /respuesta\<close> request and is identified by the number of that request; calling it
  makes the request answer, and \<open>responses\<close> records the answers in the order they are given: the
  cached or awaited message (status 200), \<^verbatim>\<open>Respuesta no encontrada\<close> (404) or
  \<^verbatim>\<open>Tiempo agotado\<close> (404). The pending \<^verbatim>\<open>setTimeout\<close> callbacks are kept in
  \<open>timers\<close>, each with the \<^verbatim>\<open>chatId\<close> and \<^verbatim>\<open>idMensaje\<close> its closure captured.
  Of a message only the sender and the body are kept.
\<close>

record message =
  m_from :: string
  m_body :: string

record msg_id =
  id_id :: "string option"
  id_serialized :: "string option"

datatype reply = Reply message | NotFound | TimedOut

record correlator =
  esperas :: "(string \<times> string) list"
  respuestas :: "(string \<times> message) list"
  resolvers :: "(string \<times> nat list) list"
  timeouts :: "(string \<times> nat) list"
  timers :: "(nat \<times> string \<times> string) list"
  next_timer :: nat
  responses :: "(nat \<times> reply) list"

definition new_correlator :: correlator where
  "new_correlator = \<lparr>esperas = [], respuestas = [], resolvers = [], timeouts = [], timers = [],
     next_timer = 0, responses = []\<rparr>"

text \<open>
  \<^verbatim>\<open>/esperar\<close>, after the queued send has returned \<^verbatim>\<open>message\<close> (lines 381 to 398):
  \<^verbatim>\<open>
  const idMensaje = message.id?.id || (message.id && message.id._serialized) || null
  if (idMensaje) {
    esperas.set(chatId, idMensaje)
    resolvers.set(idMensaje, [])
    const timeoutId = setTimeout(() => {
      if (esperas.get(chatId) === idMensaje && !respuestas.has(idMensaje)) {
        esperas.delete(chatId)
        resolvers.get(idMensaje)?.forEach(r => r(null))
        resolvers.delete(idMensaje)
      }
      timeouts.delete(idMensaje)
    }, 300000)
    timeouts.set(idMensaje, timeoutId)
  }
  \<close>
  An absent value and the empty string are the falsy values of an optional string (a string is
  the list of its code units).
\<close>

definition truthy :: "'u list option \<Rightarrow> bool" where
  "truthy v = (case v of None \<Rightarrow> False | Some x \<Rightarrow> x \<noteq> [])"

definition idMensaje_of :: "msg_id option \<Rightarrow> string option" where
  "idMensaje_of mid =
     (case mid of
        None \<Rightarrow> None
      | Some i \<Rightarrow>
          if truthy (id_id i) then id_id i
          else if truthy (id_serialized i) then id_serialized i
          else None)"

definition registrar :: "string \<Rightarrow> msg_id option \<Rightarrow> correlator \<Rightarrow> correlator" where
  "registrar chatId message_id s =
     (case idMensaje_of message_id of
        None \<Rightarrow> s
      | Some m \<Rightarrow>
          let timeoutId = next_timer s in
          s\<lparr>esperas := AList.update chatId m (esperas s),
            resolvers := AList.update m [] (resolvers s),
            timers := timers s @ [(timeoutId, chatId, m)],
            next_timer := Suc timeoutId,
            timeouts := AList.update m timeoutId (timeouts s)\<rparr>)"

text \<open>\<^verbatim>\<open>resolvers.get(idMensaje)?.forEach(r => r(value))\<close>: every waiter stored under
  \<^verbatim>\<open>idMensaje\<close> answers its request.\<close>

definition wake :: "string \<Rightarrow> reply \<Rightarrow> correlator \<Rightarrow> correlator" where
  "wake idMensaje r s =
     (case map_of (resolvers s) idMensaje of
        None \<Rightarrow> s
      | Some ws \<Rightarrow> s\<lparr>responses := responses s @ map (\<lambda>w. (w, r)) ws\<rparr>)"

text \<open>
  The \<^verbatim>\<open>message\<close> handler that \<^verbatim>\<open>createClient\<close> registers (lines 139 to 155):
  \<^verbatim>\<open>
  const chatId = message.from
  if (esperas.has(chatId)) {
    const idMensaje = esperas.get(chatId)
    respuestas.set(idMensaje, message)
    esperas.delete(chatId)
    if (resolvers.has(idMensaje)) {
      resolvers.get(idMensaje).forEach(r => r({ message }))
      resolvers.delete(idMensaje)
    }
    if (timeouts.has(idMensaje)) {
      clearTimeout(timeouts.get(idMensaje))
      timeouts.delete(idMensaje)
    }
  }
  \<close>
\<close>

definition on_message :: "message \<Rightarrow> correlator \<Rightarrow> correlator" where
  "on_message message s =
     (let chatId = m_from message in
      case map_of (esperas s) chatId of
        None \<Rightarrow> s
      | Some idMensaje \<Rightarrow>
          let s1 = s\<lparr>respuestas := AList.update idMensaje message (respuestas s),
                     esperas := AList.delete chatId (esperas s)\<rparr>;
              s2 = (wake idMensaje (Reply message) s1)
                     \<lparr>resolvers := AList.delete idMensaje (resolvers s1)\<rparr>
          in (case map_of (timeouts s2) idMensaje of
                None \<Rightarrow> s2
              | Some timeoutId \<Rightarrow>
                  s2\<lparr>timers := AList.delete timeoutId (timers s2),
                     timeouts := AList.delete idMensaje (timeouts s2)\<rparr>))"

text \<open>The callback of the five-minute timer \<^verbatim>\<open>timeoutId\<close> (lines 388 to 395 above); only a
  pending timer fires, and it fires once.\<close>

definition deadline :: "nat \<Rightarrow> correlator \<Rightarrow> correlator" where
  "deadline timeoutId s =
     (case map_of (timers s) timeoutId of
        None \<Rightarrow> s
      | Some (chatId, idMensaje) \<Rightarrow>
          let s0 = s\<lparr>timers := AList.delete timeoutId (timers s)\<rparr>;
              s1 = (if map_of (esperas s0) chatId = Some idMensaje
                       \<and> map_of (respuestas s0) idMensaje = None
                    then (wake idMensaje TimedOut (s0\<lparr>esperas := AList.delete chatId (esperas s0)\<rparr>))
                           \<lparr>resolvers := AList.delete idMensaje (resolvers s0)\<rparr>
                    else s0)
          in s1\<lparr>timeouts := AList.delete idMensaje (timeouts s1)\<rparr>)"

text \<open>
  \<^verbatim>\<open>GET /respuesta/:idMensaje\<close> (lines 409 to 447), for request number \<open>w\<close>:
  \<^verbatim>\<open>
  if (respuestas.has(idMensaje)) {
    const message = respuestas.get(idMensaje)
    return res.json({ id: message.id.id, message: message.body, ... })
  }
  const estaEsperando = Array.from(esperas.entries()).some(([, v]) => v === idMensaje)
  if (!estaEsperando) {
    return res.status(404).json({ error: 'Respuesta no encontrada' })
  }
  const respuesta = await new Promise(resolve => {
    resolvers.get(idMensaje).push(resolve)
  })
  if (!respuesta) { return res.status(404).json({ error: 'Tiempo agotado' }) }
  const { message } = respuesta
  return res.json({ id: message.id.id, message: message.body, ... })
  \<close>
  The handler answers at once (\<open>Responded\<close>), suspends with its \<^verbatim>\<open>resolve\<close> stored
  (\<open>Suspended\<close>), or \<^verbatim>\<open>push\<close> is called on \<^verbatim>\<open>undefined\<close> and throws
  (\<open>TypeError\<close>; the request is then never answered).
\<close>

definition estaEsperando :: "correlator \<Rightarrow> string \<Rightarrow> bool" where
  "estaEsperando s idMensaje = list_ex (\<lambda>(k, v). v = idMensaje) (esperas s)"

datatype get_result = Responded reply | Suspended | TypeError

definition get_respuesta :: "string \<Rightarrow> nat \<Rightarrow> correlator \<Rightarrow> get_result \<times> correlator" where
  "get_respuesta idMensaje w s =
     (case map_of (respuestas s) idMensaje of
        Some message \<Rightarrow>
          (Responded (Reply message), s\<lparr>responses := responses s @ [(w, Reply message)]\<rparr>)
      | None \<Rightarrow>
          if \<not> estaEsperando s idMensaje
          then (Responded NotFound, s\<lparr>responses := responses s @ [(w, NotFound)]\<rparr>)
          else (case map_of (resolvers s) idMensaje of
                  None \<Rightarrow> (TypeError, s)
                | Some ws \<Rightarrow>
                    (Suspended, s\<lparr>resolvers := AList.update idMensaje (ws @ [w]) (resolvers s)\<rparr>)))"

text \<open>The events of the correlator: a send of \<^verbatim>\<open>/esperar\<close> has returned a message with
  this \<^verbatim>\<open>id\<close> for this chat, the session has received a message, a deadline timer fires, a
  request for \<^verbatim>\<open>/respuesta/:idMensaje\<close> arrives.\<close>

datatype corr_event =
    Esperar string "msg_id option"
  | Inbound message
  | Deadline nat
  | Respuesta string nat

fun corr_step :: "correlator \<Rightarrow> corr_event \<Rightarrow> correlator" where
  "corr_step s (Esperar chatId message_id) = registrar chatId message_id s"
| "corr_step s (Inbound message) = on_message message s"
| "corr_step s (Deadline timeoutId) = deadline timeoutId s"
| "corr_step s (Respuesta idMensaje w) = snd (get_respuesta idMensaje w s)"

definition corr_run :: "corr_event list \<Rightarrow> correlator" where
  "corr_run evs = foldl corr_step new_correlator evs"

text \<open>Readers: the \<^verbatim>\<open>message.id\<close> of a sent message whose \<^verbatim>\<open>id.id\<close> is \<open>m\<close>, the
  identifiers that the \<^verbatim>\<open>/esperar\<close> events of a run register, in order, and the waiters
  stored for an identifier.\<close>

definition sent :: "string \<Rightarrow> msg_id option" where
  "sent m = Some \<lparr>id_id = Some m, id_serialized = None\<rparr>"


definition waiters :: "correlator \<Rightarrow> string \<Rightarrow> nat list" where
  "waiters s idMensaje = (case map_of (resolvers s) idMensaje of None \<Rightarrow> [] | Some ws \<Rightarrow> ws)"

subsection \<open>The invariant of the correlator\<close>


subsection \<open>The session: \<^verbatim>\<open>createClient\<close>, \<^verbatim>\<open>failover\<close> and the start of the module (src/main.js)\<close>

text \<open>
  The variable \<^verbatim>\<open>client\<close> refers to a \<^verbatim>\<open>Client\<close> object of whatsapp-web.js.
  \<^verbatim>\<open>failover\<close> replaces the object, and the replaced one still exists: its handlers stay
  registered and the provider may still emit events on it. The \<^verbatim>\<open>Client\<close> objects are
  therefore kept in a store, \<open>clients\<close>, in creation order, and \<open>client\<close> is an index
  into it. Of an object the model keeps the session identity it was created with, the event
  handlers registered on it, whether \<^verbatim>\<open>initialize()\<close> and \<^verbatim>\<open>destroy()\<close> have been
  called on it, and whether it has emitted \<^verbatim>\<open>ready\<close>.

  The provider is not part of the repository. A call of one of its asynchronous methods returns a
  promise that resolves or rejects, or throws before it returns one; how \<^verbatim>\<open>destroy()\<close>
  and \<^verbatim>\<open>initialize()\<close> end is a parameter of every step (\<open>provider\<close>). The constructor
  and the registration of a handler do not throw.
\<close>

datatype evname = Qr | LoadingScreen | Ready | AuthFailure | Disconnected | MessageEv

datatype listener = On evname | Once evname

record client_obj =
  sessionId :: string
  listeners :: "listener list"
  initialized :: bool
  destroyed :: bool
  ready :: bool

datatype call_end = Resolves | Rejects | Throws

record provider =
  destroy_ends :: call_end
  initialize_ends :: call_end

datatype 'v mj_obs =
    SendAttempt nat nat
  | Returned nat 'v
  | Caught nat error
  | FailoverRun
  | Rethrown nat error

record 'v main_js =
  sendQueue :: "'v task_queue"
  clients :: "client_obj list"
  client :: "nat option"
  currentSessionIndex :: nat
  serverListening :: bool
  console_error :: "string list"
  trace :: "'v mj_obs list"

text \<open>\<^verbatim>\<open>const sessionIds = ['numero1', 'numero2']\<close> (line 18).\<close>

definition sessionIds :: "string list" where
  "sessionIds = [''numero1'', ''numero2'']"

text \<open>
  \<^verbatim>\<open>createClient(sessionId)\<close> (lines 103 to 158) builds a \<^verbatim>\<open>Client\<close> and registers
  handlers for \<^verbatim>\<open>qr\<close>, \<^verbatim>\<open>loading_screen\<close>, \<^verbatim>\<open>ready\<close>, \<^verbatim>\<open>auth_failure\<close>,
  \<^verbatim>\<open>disconnected\<close> (which calls \<^verbatim>\<open>failover()\<close>) and \<^verbatim>\<open>message\<close> (the
  correlator's handler), in this order.
\<close>

definition createClient :: "string \<Rightarrow> 'v main_js \<Rightarrow> nat \<times> 'v main_js" where
  "createClient sid s =
     (length (clients s),
      s\<lparr>clients := clients s @
           [\<lparr>sessionId = sid,
             listeners = [On Qr, On LoadingScreen, On Ready, On AuthFailure, On Disconnected, On MessageEv],
             initialized = False, destroyed = False, ready = False\<rparr>]\<rparr>)"

text \<open>
  \<^verbatim>\<open>failover\<close> (lines 161 to 197):
  \<^verbatim>\<open>
  try {
    if (client) {
      client.destroy().catch(e => console.error('Error al destroy client:', e))
    }
  } catch (e) { console.error('Error en destroy:', e) }
  currentSessionIndex = (currentSessionIndex + 1) % sessionIds.length
  const newSession = sessionIds[currentSessionIndex]
  client = createClient(newSession)
  try { client.initialize() } catch (e) { console.error('Error al initialize en failover:', e) }
  client.once('ready', () => { if (!serverListening) { serverListening = true; app.listen(...) } })
  \<close>
  A rejection of the promise of \<^verbatim>\<open>initialize()\<close> has no handler and reaches the
  \<^verbatim>\<open>unhandledRejection\<close> hook of the process, which logs it. A rejection is logged when
  the promise settles, which is later than the call; the model writes the line to
  \<open>console_error\<close> in the step of the call, and nothing reads it. \<open>FailoverRun\<close> in the
  \<open>trace\<close> marks every run of \<^verbatim>\<open>failover\<close>.
\<close>

definition destroy_client :: "provider \<Rightarrow> nat \<Rightarrow> 'v main_js \<Rightarrow> 'v main_js" where
  "destroy_client P k s =
     (let s1 = s\<lparr>clients := (clients s)[k := (clients s ! k)\<lparr>destroyed := True\<rparr>]\<rparr> in
      case destroy_ends P of
        Resolves \<Rightarrow> s1
      | Rejects \<Rightarrow> s1\<lparr>console_error := console_error s1 @ [''Error al destroy client:'']\<rparr>
      | Throws \<Rightarrow> s1\<lparr>console_error := console_error s1 @ [''Error en destroy:'']\<rparr>)"

definition initialize_client :: "provider \<Rightarrow> string \<Rightarrow> nat \<Rightarrow> 'v main_js \<Rightarrow> 'v main_js" where
  "initialize_client P caught k s =
     (let s1 = s\<lparr>clients := (clients s)[k := (clients s ! k)\<lparr>initialized := True\<rparr>]\<rparr> in
      case initialize_ends P of
        Resolves \<Rightarrow> s1
      | Rejects \<Rightarrow> s1\<lparr>console_error := console_error s1 @ [''Unhandled Rejection at Promise'']\<rparr>
      | Throws \<Rightarrow> s1\<lparr>console_error := console_error s1 @ [caught]\<rparr>)"

definition once_ready :: "nat \<Rightarrow> 'v main_js \<Rightarrow> 'v main_js" where
  "once_ready k s =
     s\<lparr>clients := (clients s)[k := (clients s ! k)\<lparr>listeners := listeners (clients s ! k) @ [Once Ready]\<rparr>]\<rparr>"

definition failover :: "provider \<Rightarrow> 'v main_js \<Rightarrow> 'v main_js" where
  "failover P s =
     (let s1 = (case client s of None \<Rightarrow> s | Some k \<Rightarrow> destroy_client P k s);
          s2 = s1\<lparr>currentSessionIndex := (currentSessionIndex s1 + 1) mod length sessionIds,
                  trace := trace s1 @ [FailoverRun]\<rparr>;
          newSession = sessionIds ! currentSessionIndex s2;
          (k, s3) = createClient newSession s2;
          s4 = s3\<lparr>client := Some k\<rparr>;
          s5 = initialize_client P ''Error al initialize en failover:'' k s4
      in once_ready k s5)"

text \<open>The start of the module (lines 199 to 222): the first client is created and initialized,
  and the HTTP server starts to listen when it emits \<^verbatim>\<open>ready\<close> for the first time.\<close>

definition main_js_init :: "provider \<Rightarrow> 'v main_js" where
  "main_js_init P =
     (let s0 = \<lparr>sendQueue = new_queue, clients = [], client = None, currentSessionIndex = 0,
                 serverListening = False, console_error = [], trace = []\<rparr>;
          (k, s1) = createClient (sessionIds ! currentSessionIndex s0) s0;
          s2 = s1\<lparr>client := Some k\<rparr>;
          s3 = initialize_client P ''Error al client.initialize():'' k s2
      in once_ready k s3)"

text \<open>The provider emits \<^verbatim>\<open>ready\<close> or \<^verbatim>\<open>disconnected\<close> on the object \<open>k\<close>. A
  handler registered with \<^verbatim>\<open>once\<close> is removed when it runs.\<close>

definition on_ready :: "nat \<Rightarrow> 'v main_js \<Rightarrow> 'v main_js" where
  "on_ready k s =
     (if k < length (clients s)
      then let c = clients s ! k in
           s\<lparr>clients := (clients s)[k := c\<lparr>ready := True, listeners := remove1 (Once Ready) (listeners c)\<rparr>],
             serverListening := (serverListening s \<or> Once Ready \<in> set (listeners c))\<rparr>
      else s)"

definition on_disconnected :: "provider \<Rightarrow> nat \<Rightarrow> 'v main_js \<Rightarrow> 'v main_js" where
  "on_disconnected P k s = (if k < length (clients s) then failover P s else s)"

subsection \<open>\<^verbatim>\<open>enqueueSendOperation\<close> on the send queue (src/main.js, lines 233 to 247)\<close>

text \<open>
  \<^verbatim>\<open>
  const sendQueue = new TaskQueue()
  async function enqueueSendOperation(fn, opts = {}) {
    try {
      return await sendQueue.enqueue(async () => {
        if (!client) throw new Error('Cliente no inicializado')
        return await fn()
      }, opts)
    } catch (err) {
      console.error('Error en operacion encolada:', err)
      try { failover() } catch(e){ console.error('Failover fallo:', e) }
      throw err
    }
  }
  \<close>
  Every \<^verbatim>\<open>fn\<close> of the endpoints starts with \<^verbatim>\<open>await client.sendMessage(...)\<close> on the
  client that is current when the action is invoked: \<open>SendAttempt i k\<close> records that the send
  of job \<open>i\<close> was attempted on object \<open>k\<close>. The promise of that send settles by a later
  event.

  The part of \<^verbatim>\<open>enqueueSendOperation\<close> after its \<^verbatim>\<open>await\<close> is the continuation of the
  caller of the job: \<^verbatim>\<open>job.resolve\<close> and \<^verbatim>\<open>job.reject\<close> only schedule it. The loop of
  \<^verbatim>\<open>_process\<close> first goes on, synchronously, to shift and start the next job, and the
  continuation runs when the loop has reached its next \<^verbatim>\<open>await\<close> or its end. \<open>pend\<close> is
  the continuation that is scheduled and has not run yet.
\<close>

definition caller_continues :: "provider \<Rightarrow> (nat \<times> (error + 'v)) option \<Rightarrow> 'v main_js \<Rightarrow> 'v main_js" where
  "caller_continues P pend s =
     (case pend of
        None \<Rightarrow> s
      | Some (i, Inr v) \<Rightarrow> s\<lparr>trace := trace s @ [Returned i v]\<rparr>
      | Some (i, Inl e) \<Rightarrow>
          (let s1 = failover P (s\<lparr>trace := trace s @ [Caught i e]\<rparr>)
           in s1\<lparr>trace := trace s1 @ [Rethrown i e]\<rparr>))"

text \<open>The \<^verbatim>\<open>then\<close>, \<^verbatim>\<open>catch\<close> or timer callback of run \<open>i\<close> up to the call of
  \<^verbatim>\<open>job.resolve\<close> or \<^verbatim>\<open>job.reject\<close>.\<close>

definition finish_run :: "nat \<Rightarrow> error + 'v \<Rightarrow> 'v task_queue \<Rightarrow> 'v task_queue" where
  "finish_run i out q =
     (case runs q i of
        None \<Rightarrow> q
      | Some r \<Rightarrow> q\<lparr>runs := (runs q)(i \<mapsto> r\<lparr>finished := True, timer := False\<rparr>),
                      history := history q @ [Settled i out]\<rparr>)"

lemma queue_finish_run [simp]: "queue (finish_run i out q) = queue q"
  by (simp add: finish_run_def split: option.splits)

lemma sendQueue_failover [simp]: "sendQueue (failover P s) = sendQueue s"
  by (simp add: failover_def createClient_def destroy_client_def initialize_client_def once_ready_def
      Let_def split: option.splits call_end.splits)

lemma sendQueue_caller_continues [simp]: "sendQueue (caller_continues P pend s) = sendQueue s"
  by (simp add: caller_continues_def Let_def split: option.splits sum.splits prod.splits)

text \<open>The loop of \<^verbatim>\<open>_process\<close> on the send queue, from its head to its next suspension.
  When \<^verbatim>\<open>client\<close> is null the action throws at once, its promise is rejected, and the
  loop takes the next job after the pending continuation has run.\<close>

function mj_loop :: "provider \<Rightarrow> (nat \<times> (error + 'v)) option \<Rightarrow> 'v main_js \<Rightarrow> 'v main_js" where
  "mj_loop P pend s =
     (case queue (sendQueue s) of
        [] \<Rightarrow> caller_continues P pend (s\<lparr>sendQueue := (sendQueue s)\<lparr>processing := False\<rparr>\<rparr>)
      | j # js \<Rightarrow>
          let s1 = s\<lparr>sendQueue := runWithTimeout j ((sendQueue s)\<lparr>queue := js\<rparr>)\<rparr> in
          (case client s1 of
             Some k \<Rightarrow> caller_continues P pend (s1\<lparr>trace := trace s1 @ [SendAttempt (jid j) k]\<rparr>)
           | None \<Rightarrow>
               let s2 = caller_continues P pend s1;
                   e = Inl (Error ''Cliente no inicializado'')
               in mj_loop P (Some (jid j, e)) (s2\<lparr>sendQueue := finish_run (jid j) e (sendQueue s2)\<rparr>)))"
  by pat_completeness auto
termination
  by (relation "measure (\<lambda>(P, pend, s). length (queue (sendQueue s)))")
    (auto simp: runWithTimeout_def)

declare mj_loop.simps [simp del]

text \<open>The events of \<^verbatim>\<open>main.js\<close>: an endpoint calls \<^verbatim>\<open>enqueueSendOperation\<close> with a
  budget (requests arrive only while the server listens), the send of job \<open>i\<close> settles, the
  timer of job \<open>i\<close> fires, the provider emits \<^verbatim>\<open>ready\<close> or \<^verbatim>\<open>disconnected\<close> on an
  object. Each event comes with the behaviour of the provider during its step.\<close>

datatype 'v mj_event =
    Request nat
  | SendSettles nat "error + 'v"
  | JobTimer nat
  | ClientReady nat
  | ClientDisconnected nat

definition enqueueSendOperation :: "provider \<Rightarrow> nat \<Rightarrow> 'v main_js \<Rightarrow> 'v main_js" where
  "enqueueSendOperation P t s =
     (let q = sendQueue s;
          q1 = q\<lparr>queue := queue q @ [\<lparr>jid = submitted q, timeoutMs = t\<rparr>],
                 submitted := Suc (submitted q)\<rparr>
      in if processing q1 then s\<lparr>sendQueue := q1\<rparr>
         else mj_loop P None (s\<lparr>sendQueue := q1\<lparr>processing := True\<rparr>\<rparr>))"

definition send_settles :: "provider \<Rightarrow> nat \<Rightarrow> error + 'v \<Rightarrow> 'v main_js \<Rightarrow> 'v main_js" where
  "send_settles P i out s =
     (case runs (sendQueue s) i of
        None \<Rightarrow> s
      | Some r \<Rightarrow>
          if finished r then s
          else mj_loop P (Some (i, out)) (s\<lparr>sendQueue := finish_run i out (sendQueue s)\<rparr>))"

definition job_timer :: "provider \<Rightarrow> nat \<Rightarrow> 'v main_js \<Rightarrow> 'v main_js" where
  "job_timer P i s =
     (case runs (sendQueue s) i of
        None \<Rightarrow> s
      | Some r \<Rightarrow>
          if \<not> timer r then s
          else if finished r
          then s\<lparr>sendQueue := (sendQueue s)\<lparr>runs := (runs (sendQueue s))(i \<mapsto> r\<lparr>timer := False\<rparr>)\<rparr>\<rparr>
          else mj_loop P (Some (i, Inl (timeout_error (ms r))))
                 (s\<lparr>sendQueue := finish_run i (Inl (timeout_error (ms r))) (sendQueue s)\<rparr>))"

fun mj_step :: "'v main_js \<Rightarrow> provider \<times> 'v mj_event \<Rightarrow> 'v main_js" where
  "mj_step s (P, Request t) = (if serverListening s then enqueueSendOperation P t s else s)"
| "mj_step s (P, SendSettles i out) = send_settles P i out s"
| "mj_step s (P, JobTimer i) = job_timer P i s"
| "mj_step s (P, ClientReady k) = on_ready k s"
| "mj_step s (P, ClientDisconnected k) = on_disconnected P k s"

definition mj_run :: "provider \<Rightarrow> (provider \<times> 'v mj_event) list \<Rightarrow> 'v main_js" where
  "mj_run P0 evs = foldl mj_step (main_js_init P0) evs"

text \<open>A provider whose calls resolve.\<close>

definition calm :: provider where
  "calm = \<lparr>destroy_ends = Resolves, initialize_ends = Resolves\<rparr>"

text \<open>What holds of the session in every reachable state, the send that the loop attempts
  when it takes the next job, and the number of runs of \<^verbatim>\<open>failover\<close> in a trace.\<close>

definition session_ok :: "'v main_js \<Rightarrow> bool" where
  "session_ok s \<longleftrightarrow>
     (\<exists>k. client s = Some k \<and> k < length (clients s) \<and>
          sessionId (clients s ! k) = sessionIds ! currentSessionIndex s) \<and>
     currentSessionIndex s < length sessionIds"

definition next_attempt :: "'v main_js \<Rightarrow> 'v mj_obs list" where
  "next_attempt s =
     (case (queue (sendQueue s), client s) of
        (j # js, Some k) \<Rightarrow> [SendAttempt (jid j) k]
      | _ \<Rightarrow> [])"


subsection \<open>The variant \<^verbatim>\<open>main.queue.js\<close>: \<^verbatim>\<open>processQueue\<close> and \<^verbatim>\<open>waitForClientReady\<close> (src/unnamed/part_000, lines 16 to 188)\<close>

text \<open>
  The earlier variant has no \<^verbatim>\<open>TaskQueue\<close> class and no timer per job, but a readiness gate:
  \<^verbatim>\<open>
  let client = null
  let clientReady = false
  const sendQueue = []
  let processingQueue = false

  async function enqueue(taskFn) {
    return new Promise((resolve, reject) => {
      sendQueue.push({ taskFn, resolve, reject })
      processQueue().catch(...)
    })
  }
  async function processQueue() {
    if (processingQueue) return
    processingQueue = true
    while (sendQueue.length > 0) {
      const item = sendQueue.shift()
      try {
        await waitForClientReady()
        const result = await item.taskFn()
        item.resolve(result)
      } catch (err) { item.reject(err) }
    }
    processingQueue = false
  }
  function waitForClientReady(timeout = 60000) {
    if (client && clientReady) return Promise.resolve()
    return new Promise((resolve, reject) => {
      const onReady = () => { clear(); resolve() }
      const onTimeout = () => { cleanup(); reject(new Error('Timeout esperando client.ready')) }
      function cleanup() { client?.off('ready', onReady) }
      function clear() { cleanup(); if (timer) clearTimeout(timer) }
      client?.once('ready', onReady)
      const timer = setTimeout(onTimeout, timeout)
    })
  }
  \<close>
  An item is identified by its submission number. The coroutine \<^verbatim>\<open>processQueue\<close> is
  suspended at one of its two \<^verbatim>\<open>await\<close>s or not running, which is the \<open>phase\<close>:
  \<open>AtGate i g\<close> while item \<open>i\<close> waits in \<^verbatim>\<open>waitForClientReady\<close>, with \<open>g\<close> the
  \<^verbatim>\<open>Client\<close> object on which \<^verbatim>\<open>onReady\<close> was registered (none when \<^verbatim>\<open>client\<close>
  was null), and \<open>Running i\<close> while the task of item \<open>i\<close> is awaited. The trace records
  the gate and the tasks: \<open>GateOpen i\<close> (the gate of item \<open>i\<close> resolved at once),
  \<open>GateWait i ms\<close> (it waits, with a timer of \<open>ms\<close> milliseconds), \<open>GateReady i k\<close>
  (\<^verbatim>\<open>onReady\<close> ran on the \<^verbatim>\<open>ready\<close> event of object \<open>k\<close>), \<open>GateTimeout i\<close>
  (\<^verbatim>\<open>onTimeout\<close> ran), \<open>TaskInvoked i k\<close> (\<^verbatim>\<open>item.taskFn()\<close> was called, and its
  \<^verbatim>\<open>client.sendMessage\<close> went to object \<open>k\<close>) and \<open>ItemSettled i out\<close>
  (\<^verbatim>\<open>item.resolve\<close> or \<^verbatim>\<open>item.reject\<close>). Of a \<^verbatim>\<open>Client\<close> object only the session
  identity is kept.
\<close>

datatype 'v q_obs =
    GateOpen nat
  | GateWait nat nat
  | GateReady nat nat
  | GateTimeout nat
  | TaskInvoked nat nat
  | ItemSettled nat "error + 'v"

datatype phase = Idle | AtGate nat "nat option" | Running nat

record 'v main_queue_js =
  q_sendQueue :: "nat list"
  processingQueue :: bool
  q_phase :: phase
  q_client :: "nat option"
  clientReady :: bool
  q_sessions :: "string list"
  q_currentSessionIndex :: nat
  q_submitted :: nat
  q_trace :: "'v q_obs list"

text \<open>The start of the module: the first client is created and initialized; the server listens
  from the start.\<close>

definition q_init :: "'v main_queue_js" where
  "q_init = \<lparr>q_sendQueue = [], processingQueue = False, q_phase = Idle, q_client = Some 0,
     clientReady = False, q_sessions = [sessionIds ! 0], q_currentSessionIndex = 0,
     q_submitted = 0, q_trace = []\<rparr>"

text \<open>
  \<^verbatim>\<open>failover\<close> of this variant (lines 166 to 188): the current client is destroyed with the
  errors swallowed, then
  \<^verbatim>\<open>
  clientReady = false
  currentSessionIndex = (currentSessionIndex + 1) % sessionIds.length
  client = createClient(sessionIds[currentSessionIndex])
  try { client.initialize() } catch (e) { ... }
  \<close>
\<close>

definition q_failover :: "'v main_queue_js \<Rightarrow> 'v main_queue_js" where
  "q_failover s =
     (let idx = (q_currentSessionIndex s + 1) mod length sessionIds in
      s\<lparr>clientReady := False,
        q_currentSessionIndex := idx,
        q_client := Some (length (q_sessions s)),
        q_sessions := q_sessions s @ [sessionIds ! idx]\<rparr>)"

text \<open>The loop of \<^verbatim>\<open>processQueue\<close> from its head to its next suspension. When
  \<^verbatim>\<open>client && clientReady\<close> holds the gate returns a resolved promise and the task is
  invoked before any other event; otherwise the loop waits at the gate.\<close>

definition processQueue_loop :: "'v main_queue_js \<Rightarrow> 'v main_queue_js" where
  "processQueue_loop s =
     (case q_sendQueue s of
        [] \<Rightarrow> s\<lparr>processingQueue := False, q_phase := Idle\<rparr>
      | i # rest \<Rightarrow>
          let s1 = s\<lparr>q_sendQueue := rest\<rparr> in
          (case q_client s1 of
             Some k \<Rightarrow>
               if clientReady s1
               then s1\<lparr>q_trace := q_trace s1 @ [GateOpen i, TaskInvoked i k], q_phase := Running i\<rparr>
               else s1\<lparr>q_trace := q_trace s1 @ [GateWait i 60000], q_phase := AtGate i (Some k)\<rparr>
           | None \<Rightarrow> s1\<lparr>q_trace := q_trace s1 @ [GateWait i 60000], q_phase := AtGate i None\<rparr>))"

definition processQueue :: "'v main_queue_js \<Rightarrow> 'v main_queue_js" where
  "processQueue s = (if processingQueue s then s else processQueue_loop (s\<lparr>processingQueue := True\<rparr>))"

definition q_enqueue :: "'v main_queue_js \<Rightarrow> 'v main_queue_js" where
  "q_enqueue s =
     processQueue (s\<lparr>q_sendQueue := q_sendQueue s @ [q_submitted s], q_submitted := Suc (q_submitted s)\<rparr>)"

text \<open>\<^verbatim>\<open>item.resolve\<close> or \<^verbatim>\<open>item.reject\<close>, and back to the head of the loop.\<close>

definition item_settles :: "nat \<Rightarrow> error + 'v \<Rightarrow> 'v main_queue_js \<Rightarrow> 'v main_queue_js" where
  "item_settles i out s = processQueue_loop (s\<lparr>q_trace := q_trace s @ [ItemSettled i out]\<rparr>)"

text \<open>The gate of item \<open>i\<close> has resolved through \<^verbatim>\<open>onReady\<close>: the task is invoked and
  sends on the client that is current now. (With \<^verbatim>\<open>client\<close> null the task throws a
  \<^verbatim>\<open>TypeError\<close> at once.)\<close>

definition gate_resolved :: "nat \<Rightarrow> 'v main_queue_js \<Rightarrow> 'v main_queue_js" where
  "gate_resolved i s =
     (case q_client s of
        Some k \<Rightarrow> s\<lparr>q_trace := q_trace s @ [TaskInvoked i k], q_phase := Running i\<rparr>
      | None \<Rightarrow> item_settles i (Inl (Error ''Cannot read properties of null'')) s)"

text \<open>
  The provider emits \<^verbatim>\<open>ready\<close> on object \<open>k\<close>. First the handler of
  \<^verbatim>\<open>createClient\<close> runs:
  \<^verbatim>\<open>
  newClient.on('ready', () => {
    if (sessionIds[currentSessionIndex] === sessionId) { clientReady = true }
  })
  \<close>
  and then \<^verbatim>\<open>onReady\<close> of the gate, when it is registered on this object.
\<close>

definition ready_listeners :: "nat \<Rightarrow> 'v main_queue_js \<Rightarrow> 'v main_queue_js" where
  "ready_listeners k s =
     (case q_phase s of
        AtGate i (Some k') \<Rightarrow>
          if k' = k then gate_resolved i (s\<lparr>q_trace := q_trace s @ [GateReady i k]\<rparr>) else s
      | _ \<Rightarrow> s)"

definition q_on_ready :: "nat \<Rightarrow> 'v main_queue_js \<Rightarrow> 'v main_queue_js" where
  "q_on_ready k s =
     (if k < length (q_sessions s)
      then ready_listeners k
             (if sessionIds ! q_currentSessionIndex s = q_sessions s ! k
              then s\<lparr>clientReady := True\<rparr> else s)
      else s)"

text \<open>The timer of the gate of item \<open>i\<close> fires (a resolved gate has cleared its timer), the
  task of item \<open>i\<close> settles, and the \<^verbatim>\<open>disconnected\<close> handler
  (\<^verbatim>\<open>clientReady = false; failover()\<close>).\<close>

definition gate_timer :: "nat \<Rightarrow> 'v main_queue_js \<Rightarrow> 'v main_queue_js" where
  "gate_timer i s =
     (case q_phase s of
        AtGate i' g \<Rightarrow>
          if i' = i
          then item_settles i (Inl (Error ''Timeout esperando client.ready''))
                 (s\<lparr>q_trace := q_trace s @ [GateTimeout i]\<rparr>)
          else s
      | _ \<Rightarrow> s)"

definition task_settles :: "nat \<Rightarrow> error + 'v \<Rightarrow> 'v main_queue_js \<Rightarrow> 'v main_queue_js" where
  "task_settles i out s =
     (case q_phase s of
        Running i' \<Rightarrow> if i' = i then item_settles i out s else s
      | _ \<Rightarrow> s)"

definition q_on_disconnected :: "nat \<Rightarrow> 'v main_queue_js \<Rightarrow> 'v main_queue_js" where
  "q_on_disconnected k s =
     (if k < length (q_sessions s) then q_failover (s\<lparr>clientReady := False\<rparr>) else s)"

text \<open>The events of the variant: \<^verbatim>\<open>enqueue\<close> is called, the provider emits \<^verbatim>\<open>ready\<close>
  or \<^verbatim>\<open>disconnected\<close>, the timer of a gate fires, a task settles, and an endpoint calls
  \<^verbatim>\<open>failover()\<close> in its \<^verbatim>\<open>catch\<close>.\<close>

datatype 'v q_event =
    QEnqueue
  | QReady nat
  | QDisconnected nat
  | QGateTimer nat
  | QTaskSettles nat "error + 'v"
  | QFailover

fun q_step :: "'v main_queue_js \<Rightarrow> 'v q_event \<Rightarrow> 'v main_queue_js" where
  "q_step s QEnqueue = q_enqueue s"
| "q_step s (QReady k) = q_on_ready k s"
| "q_step s (QDisconnected k) = q_on_disconnected k s"
| "q_step s (QGateTimer i) = gate_timer i s"
| "q_step s (QTaskSettles i out) = task_settles i out s"
| "q_step s QFailover = q_failover s"

definition q_run :: "'v q_event list \<Rightarrow> 'v main_queue_js" where
  "q_run evs = foldl q_step q_init evs"

text \<open>Readers of a trace: the item of an observation; \<open>gated\<close>, which holds when every
  \<open>TaskInvoked i k\<close> directly follows \<open>GateOpen i\<close> or \<open>GateReady i k'\<close>; the items
  whose task was invoked and the items whose gate timed out; what the loop records when it takes
  item \<open>i\<close>, and for the item at the head of the queue.\<close>

fun item_of :: "'v q_obs \<Rightarrow> nat" where
  "item_of (GateOpen i) = i"
| "item_of (GateWait i t) = i"
| "item_of (GateReady i k) = i"
| "item_of (GateTimeout i) = i"
| "item_of (TaskInvoked i k) = i"
| "item_of (ItemSettled i out) = i"

fun opens_gate :: "'v q_obs option \<Rightarrow> nat \<Rightarrow> bool" where
  "opens_gate (Some (GateOpen i)) j = (i = j)"
| "opens_gate (Some (GateReady i k)) j = (i = j)"
| "opens_gate _ j = False"

fun gated :: "'v q_obs option \<Rightarrow> 'v q_obs list \<Rightarrow> bool" where
  "gated prev [] = True"
| "gated prev (TaskInvoked i k # tr) = (opens_gate prev i \<and> gated (Some (TaskInvoked i k)) tr)"
| "gated prev (x # tr) = gated (Some x) tr"

fun invoked :: "'v q_obs list \<Rightarrow> nat list" where
  "invoked [] = []"
| "invoked (TaskInvoked i k # tr) = i # invoked tr"
| "invoked (x # tr) = invoked tr"

fun timed_out :: "'v q_obs list \<Rightarrow> nat list" where
  "timed_out [] = []"
| "timed_out (GateTimeout i # tr) = i # timed_out tr"
| "timed_out (x # tr) = timed_out tr"

text \<open>The objects that emit \<^verbatim>\<open>ready\<close> in a list of events, in order.\<close>

fun emitted_ready :: "'v q_event list \<Rightarrow> nat list" where
  "emitted_ready [] = []"
| "emitted_ready (QReady k # evs) = k # emitted_ready evs"
| "emitted_ready (e # evs) = emitted_ready evs"

definition gate_entry :: "'v main_queue_js \<Rightarrow> nat \<Rightarrow> 'v q_obs list" where
  "gate_entry s i =
     (case q_client s of
        Some k \<Rightarrow> if clientReady s then [GateOpen i, TaskInvoked i k] else [GateWait i 60000]
      | None \<Rightarrow> [GateWait i 60000])"

definition next_gate :: "'v main_queue_js \<Rightarrow> 'v q_obs list" where
  "next_gate s = (case q_sendQueue s of [] \<Rightarrow> [] | i # rest \<Rightarrow> gate_entry s i)"

subsection \<open>The invariant of \<^verbatim>\<open>processQueue\<close>\<close>

text \<open>With \<open>m\<close> items taken from the queue: the queue holds the later items in order, the
  trace mentions taken items only, is gated, and no item both timed out at the gate and had its
  task invoked; the client is an existing object; the item at the gate is the last one taken, was
  neither invoked nor timed out, and its gate is registered on an existing object; and the loop is
  inactive only with an empty queue.\<close>

definition q_base :: "nat \<Rightarrow> 'v main_queue_js \<Rightarrow> bool" where
  "q_base m s \<longleftrightarrow>
     m \<le> q_submitted s \<and> q_sendQueue s = [m ..< q_submitted s] \<and>
     (\<forall>x \<in> set (q_trace s). item_of x < m) \<and>
     gated None (q_trace s) \<and>
     set (timed_out (q_trace s)) \<inter> set (invoked (q_trace s)) = {} \<and>
     (\<exists>k. q_client s = Some k \<and> k < length (q_sessions s))"

fun phase_ok :: "nat \<Rightarrow> nat \<Rightarrow> 'v q_obs list \<Rightarrow> phase \<Rightarrow> bool" where
  "phase_ok m n tr Idle = True"
| "phase_ok m n tr (AtGate i g) =
     (Suc i = m \<and> i \<notin> set (invoked tr) \<and> i \<notin> set (timed_out tr) \<and>
      (case g of None \<Rightarrow> True | Some k \<Rightarrow> k < n))"
| "phase_ok m n tr (Running i) = (Suc i = m)"

definition q_inv :: "'v main_queue_js \<Rightarrow> bool" where
  "q_inv s \<longleftrightarrow>
     (\<exists>m. q_base m s \<and> phase_ok m (length (q_sessions s)) (q_trace s) (q_phase s)) \<and>
     (processingQueue s \<or> (q_phase s = Idle \<and> q_sendQueue s = []))"

subsection \<open>The validation of the sending endpoints (src/main.js, lines 257 to 406)\<close>










section \<open>The task queue: order, one job at a time, timeouts\<close>

lemma serial_Suc: "serial (Suc d) = serial d @ [(d, False), (d, True)]"
  by (simp add: serial_def)

lemma serial_0: "serial 0 = []"
  by (simp add: serial_def)

lemma job_of_append: "i < length bs \<Longrightarrow> job_of (bs @ [t]) i = job_of bs i"
  by (simp add: job_of_def nth_append)

lemma job_of_last: "job_of (bs @ [t]) (length bs) = \<lparr>jid = length bs, timeoutMs = t\<rparr>"
  by (simp add: job_of_def)

lemma map_job_of_append:
  "n \<le> length bs \<Longrightarrow> map (job_of (bs @ [t])) [m..<n] = map (job_of bs) [m..<n]"
  by (simp add: job_of_append)

lemma tq_inv_new: "tq_inv [] 0 new_queue"
  by (simp add: tq_inv_def new_queue_def serial_0)

lemma tq_inv_enqueue:
  assumes "tq_inv bs d q"
  shows "tq_inv (bs @ [t]) d (enqueue t q)"
proof (cases "processing q")
  case True
  with assms show ?thesis
    by (auto simp: tq_inv_def enqueue_def process_def nth_append job_of_def map_job_of_append)
next
  case False
  with assms show ?thesis
    by (auto simp: tq_inv_def enqueue_def process_def process_loop_def runWithTimeout_def nth_append job_of_def)
qed

lemma upt_Suc_conv: "m < n \<Longrightarrow> [m..<n] = m # [Suc m..<n]"
  by (simp add: upt_conv_Cons)

lemma tq_inv_resume:
  assumes "tq_inv bs d q" "processing q"
  shows "tq_inv bs (Suc d)
           (resume d out (q\<lparr>runs := (runs q)(d \<mapsto> \<lparr>ms = bs ! d, finished = True, timer = False\<rparr>)\<rparr>))"
proof (cases "Suc d < submitted q")
  case True
  with assms show ?thesis
    by (auto simp: tq_inv_def resume_def process_loop_def runWithTimeout_def serial_Suc
        upt_Suc_conv job_of_def less_Suc_eq)
next
  case False
  with assms show ?thesis
    by (auto simp: tq_inv_def resume_def process_loop_def runWithTimeout_def serial_Suc less_Suc_eq)
qed

lemma tq_inv_unfinished:
  assumes "tq_inv bs d q" "runs q i = Some r" "\<not> finished r"
  shows "processing q \<and> i = d \<and> r = \<lparr>ms = bs ! d, finished = False, timer = True\<rparr>"
proof -
  from assms have "\<not> i < d" by (auto simp: tq_inv_def)
  moreover from assms have "\<not> (if processing q then d < i else d \<le> i)"
    by (auto simp: tq_inv_def)
  ultimately have "processing q \<and> i = d" by (auto split: if_splits)
  with assms show ?thesis by (auto simp: tq_inv_def)
qed

lemma tq_inv_timer:
  assumes "tq_inv bs d q" "runs q i = Some r" "timer r"
  shows "\<not> finished r"
proof -
  from assms have "\<not> i < d" by (auto simp: tq_inv_def)
  moreover from assms have "\<not> (if processing q then d < i else d \<le> i)"
    by (auto simp: tq_inv_def)
  ultimately have "processing q \<and> i = d" by (auto split: if_splits)
  with assms show ?thesis by (auto simp: tq_inv_def)
qed

lemma action_settles_current:
  assumes "tq_inv bs d q" "processing q"
  shows "action_settles d out q =
           resume d out (q\<lparr>runs := (runs q)(d \<mapsto> \<lparr>ms = bs ! d, finished = True, timer = False\<rparr>)\<rparr>)"
  using assms by (simp add: tq_inv_def action_settles_def)

lemma timer_fires_current:
  assumes "tq_inv bs d q" "processing q"
  shows "timer_fires d q =
           resume d (Inl (timeout_error (bs ! d)))
             (q\<lparr>runs := (runs q)(d \<mapsto> \<lparr>ms = bs ! d, finished = True, timer = False\<rparr>)\<rparr>)"
  using assms by (simp add: tq_inv_def timer_fires_def)

lemma action_settles_other:
  assumes "tq_inv bs d q" "\<not> (processing q \<and> i = d)"
  shows "action_settles i out q = q"
  using assms tq_inv_unfinished [OF assms(1)]
  by (auto simp: action_settles_def split: option.splits)

lemma timer_fires_other:
  assumes "tq_inv bs d q" "\<not> (processing q \<and> i = d)"
  shows "timer_fires i q = q"
  using assms tq_inv_unfinished [OF assms(1)] tq_inv_timer [OF assms(1)]
  by (auto simp: timer_fires_def split: option.splits)

lemma tq_inv_step:
  assumes "tq_inv bs d q"
  shows "\<exists>d'. d \<le> d' \<and> tq_inv (bs @ budgets [e]) d' (step q e)"
proof (cases e)
  case (Enqueue t)
  with tq_inv_enqueue [OF assms] show ?thesis by auto
next
  case (ActionSettles i out)
  show ?thesis
  proof (cases "processing q \<and> i = d")
    case True
    with assms ActionSettles show ?thesis
      using tq_inv_resume [OF assms, of out] action_settles_current [OF assms, of out]
      by (intro exI [of _ "Suc d"]) simp
  next
    case False
    with assms ActionSettles show ?thesis
      using action_settles_other [OF assms False] by (intro exI [of _ d]) simp
  qed
next
  case (TimerFires i)
  show ?thesis
  proof (cases "processing q \<and> i = d")
    case True
    with assms TimerFires show ?thesis
      using tq_inv_resume [OF assms, of "Inl (timeout_error (bs ! d))"] timer_fires_current [OF assms]
      by (intro exI [of _ "Suc d"]) simp
  next
    case False
    with assms TimerFires show ?thesis
      using timer_fires_other [OF assms False] by (intro exI [of _ d]) simp
  qed
qed

lemma budgets_append: "budgets (evs @ evs') = budgets evs @ budgets evs'"
  by (induction evs rule: budgets.induct) simp_all

lemma tq_inv_foldl:
  assumes "tq_inv bs d q"
  shows "\<exists>d'. d \<le> d' \<and> tq_inv (bs @ budgets evs) d' (foldl step q evs)"
proof (induction evs rule: rev_induct)
  case Nil
  with assms show ?case by auto
next
  case (snoc e evs)
  then obtain d' where d': "d \<le> d'" "tq_inv (bs @ budgets evs) d' (foldl step q evs)"
    by blast
  from tq_inv_step [OF d'(2), of e] d'(1) show ?case
    by (auto simp: budgets_append intro: le_trans)
qed

lemma tq_inv_reachable: "\<exists>d. tq_inv (budgets evs) d (run_events evs)"
  using tq_inv_foldl [OF tq_inv_new, of evs] by (auto simp: run_events_def)

lemma outcomes_key: "map fst (outcomes h) = map fst (filter snd (map key h))"
  by (induction h rule: outcomes.induct) simp_all

lemma filter_snd_serial: "map fst (filter snd (serial d)) = [0..<d]"
  by (induction d) (simp_all add: serial_0 serial_Suc)

lemma tq_inv_outcomes:
  assumes "tq_inv bs d q"
  shows "map fst (outcomes (history q)) = [0..<d]"
proof -
  from assms have "map key (history q) = serial d @ (if processing q then [(d, False)] else [])"
    by (simp add: tq_inv_def)
  then show ?thesis by (simp add: outcomes_key filter_snd_serial)
qed

lemma tq_inv_settled_count:
  assumes "tq_inv bs d q"
  shows "length (outcomes (history q)) = d"
  using arg_cong [OF tq_inv_outcomes [OF assms], of length] by simp

lemma tq_inv_bound:
  assumes "tq_inv bs d q"
  shows "d \<le> submitted q" "length bs = submitted q" "processing q = (d < submitted q)"
  using assms by (auto simp: tq_inv_def split: if_splits)

lemma tq_drain:
  assumes "tq_inv bs d q"
  shows "\<exists>d'. tq_inv bs d' (foldl step q (map TimerFires [0..<k])) \<and> min k (submitted q) \<le> d'"
proof (induction k)
  case 0
  with assms show ?case by auto
next
  case (Suc k)
  then obtain d' where d': "tq_inv bs d' (foldl step q (map TimerFires [0..<k]))"
    "min k (submitted q) \<le> d'" by blast
  let ?q = "foldl step q (map TimerFires [0..<k])"
  have sub: "submitted ?q = submitted q"
    using tq_inv_bound(2) [OF d'(1)] tq_inv_bound(2) [OF assms] by simp
  show ?case
  proof (cases "processing ?q \<and> k = d'")
    case True
    then have p: "processing ?q" by (rule conjunct1)
    from True have k: "k = d'" by (rule conjunct2)
    have "tq_inv bs (Suc d') (timer_fires d' ?q)"
      unfolding timer_fires_current [OF d'(1) p] by (rule tq_inv_resume [OF d'(1) p])
    with k have "tq_inv bs (Suc d') (foldl step q (map TimerFires [0..<Suc k]))" by simp
    with k show ?thesis by (intro exI [of _ "Suc d'"]) simp
  next
    case False
    then have same: "step ?q (TimerFires k) = ?q"
      using timer_fires_other [OF d'(1)] by simp
    from False tq_inv_bound(3) [OF d'(1)] tq_inv_bound(1) [OF d'(1)] d'(2) sub
    have "min (Suc k) (submitted q) \<le> d'" by (auto simp: min_def split: if_splits)
    with same d'(1) show ?thesis by (intro exI [of _ d']) simp
  qed
qed

lemma tq_drain_all:
  assumes "tq_inv bs d q"
  shows "map fst (outcomes (history (foldl step q (map TimerFires [0..<submitted q])))) = [0..<submitted q]"
proof -
  from tq_drain [OF assms, of "submitted q"] obtain d' where
    d': "tq_inv bs d' (foldl step q (map TimerFires [0..<submitted q]))" "submitted q \<le> d'"
    by auto
  from tq_inv_bound(1,2) [OF d'(1)] tq_inv_bound(2) [OF assms] d'(2) have "d' = submitted q"
    by simp
  with tq_inv_outcomes [OF d'(1)] show ?thesis by simp
qed

lemma history_fail_current:
  assumes "tq_inv bs d q" "processing q"
  shows "history (step q (ActionSettles d out)) =
           history q @ Settled d out # (if Suc d < submitted q then [Started (Suc d)] else [])"
proof (cases "Suc d < submitted q")
  case True
  with assms show ?thesis
    by (simp add: action_settles_current [OF assms] tq_inv_def resume_def process_loop_def
        runWithTimeout_def upt_Suc_conv job_of_def)
next
  case False
  with assms show ?thesis
    by (simp add: action_settles_current [OF assms] tq_inv_def resume_def process_loop_def)
qed

text \<open>
  \<^bold>\<open>C1\<close>. For every sequence of events (jobs submitted at any moment, actions settling with
  success or failure, timers firing), with \<open>d\<close> the number of jobs settled so far:
  the history is that of jobs \<open>0, ..., d - 1\<close> run strictly one after the other, each started
  and then settled before the next is started, followed by the start of job \<open>d\<close> when the
  loop is active; so the jobs are settled in submission order. The jobs not yet started wait in
  the queue in submission order, and the loop is active exactly as long as a submitted job is
  unsettled. When the running job fails, the failure is passed to its caller and the next queued
  job is started in the same step. Whatever happened before, once the timers have fired every
  submitted job has been executed and settled, in submission order.
\<close>

theorem tq_fifo_one_at_a_time:
  fixes evs :: "'v event list" and e :: error
  shows "let q = run_events evs; d = length (outcomes (history q)) in
      map key (history q) = serial d @ (if processing q then [(d, False)] else []) \<and>
      map fst (outcomes (history q)) = [0..<d] \<and>
      map jid (queue q) = [(if processing q then Suc d else d) ..< submitted q] \<and>
      processing q = (d < submitted q) \<and>
      (processing q \<longrightarrow>
         history (step q (ActionSettles d (Inl e))) =
           history q @ Settled d (Inl e) # (if Suc d < submitted q then [Started (Suc d)] else [])) \<and>
      map fst (outcomes (history (foldl step q (map TimerFires [0..<submitted q])))) = [0..<submitted q]"
proof -
  obtain d where inv: "tq_inv (budgets evs) d (run_events evs)"
    using tq_inv_reachable by blast
  have d: "length (outcomes (history (run_events evs))) = d"
    by (rule tq_inv_settled_count [OF inv])
  have 1: "map key (history (run_events evs)) =
      serial d @ (if processing (run_events evs) then [(d, False)] else [])"
    using inv by (simp add: tq_inv_def)
  have 3: "map jid (queue (run_events evs)) =
      [(if processing (run_events evs) then Suc d else d) ..< submitted (run_events evs)]"
    using inv by (simp add: tq_inv_def job_of_def comp_def)
  show ?thesis
    unfolding Let_def d
    using 1 3 tq_inv_outcomes [OF inv] tq_inv_bound(3) [OF inv] tq_drain_all [OF inv]
      history_fail_current [OF inv]
    by simp
qed

theorem tq_fifo_one_at_a_time_witness:
  "history (run_events [Enqueue 45000, Enqueue 120000, Enqueue 45000,
       ActionSettles 0 (Inl (Error ''boom'')) :: nat event]) =
     [Started 0, Settled 0 (Inl (Error ''boom'')), Started 1] \<and>
   history (step (run_events [Enqueue 45000, Enqueue 120000, Enqueue 45000,
       ActionSettles 0 (Inl (Error ''boom'')) :: nat event]) (ActionSettles 1 (Inl (Error ''again'')))) =
     [Started 0, Settled 0 (Inl (Error ''boom'')), Started 1, Settled 1 (Inl (Error ''again'')), Started 2]"
  using tq_fifo_one_at_a_time [of "[Enqueue 45000, Enqueue 120000, Enqueue 45000,
       ActionSettles 0 (Inl (Error ''boom''))]" "Error ''again''"]
  by (simp add: Let_def run_events_def new_queue_def enqueue_def process_def process_loop_def
      runWithTimeout_def action_settles_def resume_def)

lemma history_step: "\<exists>h. history (step q e) = history q @ h"
  by (cases e)
    (auto simp: enqueue_def process_def process_loop_def runWithTimeout_def action_settles_def
      timer_fires_def resume_def split: list.splits option.splits)

lemma history_foldl: "\<exists>h. history (foldl step q evs) = history q @ h"
proof (induction evs rule: rev_induct)
  case Nil
  show ?case by simp
next
  case (snoc e evs)
  then obtain h where h: "history (foldl step q evs) = history q @ h" by blast
  from history_step [of "foldl step q evs" e] obtain h' where
    "history (step (foldl step q evs) e) = history (foldl step q evs) @ h'" by blast
  with h show ?case by simp
qed

lemma outcomes_append: "outcomes (h @ h') = outcomes h @ outcomes h'"
  by (induction h rule: outcomes.induct) simp_all

lemma filter_id_outside:
  assumes "map fst xs = [a..<b]" "i < a \<or> b \<le> i"
  shows "filter (\<lambda>(j, out). j = i) xs = []"
proof -
  have "\<forall>x \<in> set xs. fst x \<in> set (map fst xs)" by simp
  with assms have "\<forall>x \<in> set xs. fst x \<noteq> i" by auto
  then show ?thesis by (auto simp: filter_empty_conv)
qed

lemma upt_split_at: "d < d' \<Longrightarrow> [0..<d'] = [0..<d] @ d # [Suc d..<d']"
  using upt_add_eq_append [of 0 d "d' - d"] by (simp add: upt_conv_Cons)

lemma history_timeout_current:
  assumes "tq_inv bs d q" "processing q"
  shows "history (step q (TimerFires d)) =
           history q @ Settled d (Inl (timeout_error (bs ! d))) #
             (case queue q of [] \<Rightarrow> [] | j # js \<Rightarrow> [Started (jid j)])"
  using assms
  by (simp add: timer_fires_current [OF assms] resume_def process_loop_def runWithTimeout_def
      split: list.splits)

lemma tq_inv_timeout_current:
  assumes "tq_inv bs d q" "processing q"
  shows "tq_inv bs (Suc d) (step q (TimerFires d))"
  using tq_inv_resume [OF assms] timer_fires_current [OF assms] by simp

lemma once_settled:
  assumes inv: "tq_inv bs d q" and p: "processing q"
    and inv': "tq_inv bs' d' (foldl step (step q (TimerFires d)) evs')"
  shows "filter (\<lambda>(j, out). j = d) (outcomes (history (foldl step (step q (TimerFires d)) evs'))) =
           [(d, Inl (timeout_error (bs ! d)))]"
proof -
  let ?q' = "step q (TimerFires d)" and ?q'' = "foldl step (step q (TimerFires d)) evs'"
  let ?t = "(d, Inl (timeout_error (bs ! d)))"
  obtain h where h: "history ?q'' = history ?q' @ h" using history_foldl by blast
  obtain h0 where h0: "history ?q' = history q @ Settled d (Inl (timeout_error (bs ! d))) # h0"
    "outcomes h0 = []"
    using history_timeout_current [OF inv p] by (cases "queue q") auto
  let ?os = "outcomes (history q)" and ?rest = "outcomes h"
  have os'': "outcomes (history ?q'') = ?os @ ?t # ?rest"
    unfolding h h0(1) by (simp add: outcomes_append h0(2))
  have ids: "map fst (outcomes (history ?q'')) = [0..<d']" by (rule tq_inv_outcomes [OF inv'])
  have os: "map fst ?os = [0..<d]" by (rule tq_inv_outcomes [OF inv])
  from ids os'' os have "[0..<d] @ d # map fst ?rest = [0..<d']" by simp
  moreover from this have "d < d'"
    by (metis length_upt diff_zero length_append length_Cons less_add_Suc1 add_Suc_right)
  ultimately have "[0..<d] @ d # map fst ?rest = [0..<d] @ d # [Suc d..<d']"
    using upt_split_at [of d d'] by simp
  then have rest: "map fst ?rest = [Suc d..<d']" by simp
  have "filter (\<lambda>(j, out). j = d) ?os = []" by (rule filter_id_outside [OF os]) simp
  moreover have "filter (\<lambda>(j, out). j = d) ?rest = []" by (rule filter_id_outside [OF rest]) simp
  ultimately show ?thesis unfolding os'' by simp
qed

text \<open>
  \<^bold>\<open>C2\<close>. Let job \<open>i\<close> be running with its action unsettled (its run is unfinished) when its
  timer fires. Then the job is rejected with the error \<^verbatim>\<open>Job timed out after <ms>ms\<close>
  for its own budget \<open>ms\<close>, and the next queued job is started in the same step. Whatever
  happens afterwards, the caller of job \<open>i\<close> has received exactly this one outcome: a later
  settlement of the action (with a result or an error) and a second firing of the timer leave the
  queue as it is.
\<close>

theorem tq_timeout_once:
  fixes evs evs' :: "'v event list"
  assumes "runs (run_events evs) i = Some r" "\<not> finished r"
  shows "let q = run_events evs; q' = step q (TimerFires i); q'' = foldl step q' evs';
             err = Error (''Job timed out after '' @ decimal (budgets evs ! i) @ ''ms'') in
      i < length (budgets evs) \<and> ms r = budgets evs ! i \<and>
      history q' = history q @ Settled i (Inl err) #
         (case queue q of [] \<Rightarrow> [] | j # js \<Rightarrow> [Started (jid j)]) \<and>
      filter (\<lambda>(j, out). j = i) (outcomes (history q'')) = [(i, Inl err)] \<and>
      (\<forall>out. step q'' (ActionSettles i out) = q'') \<and>
      step q'' (TimerFires i) = q''"
proof -
  let ?q = "run_events evs"
  obtain d where inv: "tq_inv (budgets evs) d ?q" using tq_inv_reachable by blast
  from tq_inv_unfinished [OF inv assms] have p: "processing ?q" and i: "i = d"
    and r: "r = \<lparr>ms = budgets evs ! d, finished = False, timer = True\<rparr>" by simp_all
  let ?q' = "step ?q (TimerFires d)"
  let ?q'' = "foldl step ?q' evs'"
  have inv': "tq_inv (budgets evs) (Suc d) ?q'" by (rule tq_inv_timeout_current [OF inv p])
  from tq_inv_foldl [OF inv', of evs'] obtain d' where
    d': "Suc d \<le> d'" "tq_inv (budgets evs @ budgets evs') d' ?q''" by blast
  have other: "\<not> (processing ?q'' \<and> d = d')" using d'(1) by simp
  have 1: "d < length (budgets evs)" using tq_inv_bound [OF inv] p by simp
  have 2: "history ?q' = history ?q @ Settled d (Inl (timeout_error (budgets evs ! d))) #
         (case queue ?q of [] \<Rightarrow> [] | j # js \<Rightarrow> [Started (jid j)])"
    by (rule history_timeout_current [OF inv p])
  have 3: "filter (\<lambda>(j, out). j = d) (outcomes (history ?q'')) =
      [(d, Inl (timeout_error (budgets evs ! d)))]"
    by (rule once_settled [OF inv p d'(2)])
  have 4: "\<And>out. step ?q'' (ActionSettles d out) = ?q''"
    using action_settles_other [OF d'(2) other] by simp
  have 5: "step ?q'' (TimerFires d) = ?q''"
    using timer_fires_other [OF d'(2) other] by simp
  show ?thesis
    unfolding Let_def i using 1 2 3 4 5 r by (simp add: timeout_error_def)
qed

theorem tq_timeout_once_witness:
  "runs (run_events [Enqueue 45000, Enqueue 120000 :: nat event]) 0 =
      Some \<lparr>ms = 45000, finished = False, timer = True\<rparr> \<and>
   history (step (run_events [Enqueue 45000, Enqueue 120000 :: nat event]) (TimerFires 0)) =
     [Started 0, Settled 0 (Inl (Error ''Job timed out after 45000ms'')), Started 1] \<and>
   filter (\<lambda>(j, out). j = 0)
     (outcomes (history (foldl step (step (run_events [Enqueue 45000, Enqueue 120000 :: nat event])
        (TimerFires 0)) [ActionSettles 0 (Inr 7), TimerFires 0, ActionSettles 1 (Inr 8)]))) =
     [(0, Inl (Error ''Job timed out after 45000ms''))]"
proof -
  have r: "runs (run_events [Enqueue 45000, Enqueue 120000 :: nat event]) 0 =
      Some \<lparr>ms = 45000, finished = False, timer = True\<rparr>"
    by (simp add: run_events_def new_queue_def enqueue_def process_def process_loop_def
        runWithTimeout_def)
  have d: "decimal 45000 = ''45000''" by (simp add: decimal.simps digit_def)
  from tq_timeout_once [OF r, of "[ActionSettles 0 (Inr 7), TimerFires 0, ActionSettles 1 (Inr 8)]"]
  show ?thesis
    using r
    by (simp add: Let_def d run_events_def new_queue_def enqueue_def process_def process_loop_def
        runWithTimeout_def timer_fires_def action_settles_def resume_def timeout_error_def)
qed

section \<open>The reply correlator\<close>

lemmas corr_eval = corr_run_def new_correlator_def registrar_def on_message_def deadline_def
  get_respuesta_def estaEsperando_def wake_def idMensaje_of_def truthy_def sent_def Let_def

text \<open>
  \<^bold>\<open>C8\<close>. For every state of the maps and every inbound message: when \<^verbatim>\<open>esperas\<close> has no
  entry for the sender, the handler leaves the state as it is. When it maps the sender to
  \<open>idMensaje\<close>, the handler caches the message under \<open>idMensaje\<close> (other cached replies
  are kept), removes the sender's entry of \<^verbatim>\<open>esperas\<close>, answers every waiter stored for
  \<open>idMensaje\<close> with the message, in the order they arrived, removes the entries of
  \<open>idMensaje\<close> in \<^verbatim>\<open>resolvers\<close> and \<^verbatim>\<open>timeouts\<close>, and cancels the timer recorded
  for \<open>idMensaje\<close>, which is then no longer pending.
\<close>

theorem on_message_effect:
  "(case map_of (esperas s) (m_from message) of
      None \<Rightarrow> on_message message s = s
    | Some idMensaje \<Rightarrow>
        (let s' = on_message message s in
         map_of (respuestas s') idMensaje = Some message \<and>
         (\<forall>m. m \<noteq> idMensaje \<longrightarrow> map_of (respuestas s') m = map_of (respuestas s) m) \<and>
         map_of (esperas s') = (map_of (esperas s))(m_from message := None) \<and>
         responses s' = responses s @ map (\<lambda>w. (w, Reply message)) (waiters s idMensaje) \<and>
         map_of (resolvers s') = (map_of (resolvers s))(idMensaje := None) \<and>
         map_of (timeouts s') = (map_of (timeouts s))(idMensaje := None) \<and>
         (case map_of (timeouts s) idMensaje of
            None \<Rightarrow> timers s' = timers s
          | Some timeoutId \<Rightarrow> timers s' = AList.delete timeoutId (timers s) \<and> map_of (timers s') timeoutId = None) \<and>
         next_timer s' = next_timer s))"
  by (auto simp: on_message_def wake_def waiters_def Let_def update_conv' delete_conv' fun_upd_def
      split: option.splits)

theorem on_message_effect_witness:
  "map_of (esperas (corr_run [Esperar ''c'' (sent ''m''), Respuesta ''m'' 7, Respuesta ''m'' 8])) ''c'' = Some ''m'' \<and>
   on_message \<lparr>m_from = ''c'', m_body = ''pong''\<rparr>
       (corr_run [Esperar ''c'' (sent ''m''), Respuesta ''m'' 7, Respuesta ''m'' 8]) =
     \<lparr>esperas = [], respuestas = [(''m'', \<lparr>m_from = ''c'', m_body = ''pong''\<rparr>)], resolvers = [],
      timeouts = [], timers = [], next_timer = 1,
      responses = [(7, Reply \<lparr>m_from = ''c'', m_body = ''pong''\<rparr>),
                   (8, Reply \<lparr>m_from = ''c'', m_body = ''pong''\<rparr>)]\<rparr> \<and>
   on_message \<lparr>m_from = ''d'', m_body = ''hola''\<rparr>
       (corr_run [Esperar ''c'' (sent ''m''), Respuesta ''m'' 7, Respuesta ''m'' 8]) =
     corr_run [Esperar ''c'' (sent ''m''), Respuesta ''m'' 7, Respuesta ''m'' 8]"
  using on_message_effect [where s = "corr_run [Esperar ''c'' (sent ''m''), Respuesta ''m'' 7, Respuesta ''m'' 8]"
      and message = "\<lparr>m_from = ''c'', m_body = ''pong''\<rparr>"]
    on_message_effect [where s = "corr_run [Esperar ''c'' (sent ''m''), Respuesta ''m'' 7, Respuesta ''m'' 8]"
      and message = "\<lparr>m_from = ''d'', m_body = ''hola''\<rparr>"]
  by (simp add: corr_eval)

lemma respuestas_step:
  assumes "map_of (respuestas s) m \<noteq> None"
  shows "map_of (respuestas (corr_step s e)) m \<noteq> None"
  using assms
  by (cases e)
    (auto simp: registrar_def on_message_def deadline_def get_respuesta_def wake_def Let_def
      update_conv' split: option.splits)

lemma respuestas_foldl:
  assumes "map_of (respuestas s) m \<noteq> None"
  shows "map_of (respuestas (foldl corr_step s evs)) m \<noteq> None"
  using assms
proof (induction evs arbitrary: s)
  case Nil
  then show ?case by simp
next
  case (Cons e evs)
  from Cons.prems have "map_of (respuestas (corr_step s e)) m \<noteq> None"
    by (rule respuestas_step)
  then have "map_of (respuestas (foldl corr_step (corr_step s e) evs)) m \<noteq> None"
    by (rule Cons.IH)
  then show ?case by simp
qed

text \<open>
  \<^bold>\<open>C7\<close>. When a reply is cached for \<open>m\<close>, \<^verbatim>\<open>GET /respuesta/m\<close> answers at once with
  the cached message and stores no waiter; and after any further events (registrations, inbound
  messages, deadlines, other requests) a reply is still cached for \<open>m\<close> and the request is
  still answered at once with it: no handler removes an entry of \<^verbatim>\<open>respuestas\<close>. When no
  reply is cached for \<open>m\<close> and \<open>m\<close> is not a value of \<^verbatim>\<open>esperas\<close>, the request is
  answered at once with 404 \<^verbatim>\<open>Respuesta no encontrada\<close>.
\<close>

theorem awaitReply_cached:
  "(map_of (respuestas s) m = Some message \<longrightarrow>
      get_respuesta m w s =
        (Responded (Reply message), s\<lparr>responses := responses s @ [(w, Reply message)]\<rparr>) \<and>
      (\<exists>message'. map_of (respuestas (foldl corr_step s evs)) m = Some message' \<and>
         get_respuesta m w (foldl corr_step s evs) =
           (Responded (Reply message'),
            (foldl corr_step s evs)\<lparr>responses := responses (foldl corr_step s evs) @ [(w, Reply message')]\<rparr>))) \<and>
   (map_of (respuestas s) m = None \<and> \<not> estaEsperando s m \<longrightarrow>
      get_respuesta m w s = (Responded NotFound, s\<lparr>responses := responses s @ [(w, NotFound)]\<rparr>))"
proof (intro conjI impI)
  assume c: "map_of (respuestas s) m = Some message"
  then show "get_respuesta m w s =
      (Responded (Reply message), s\<lparr>responses := responses s @ [(w, Reply message)]\<rparr>)"
    by (simp add: get_respuesta_def)
  from c have "map_of (respuestas (foldl corr_step s evs)) m \<noteq> None"
    by (intro respuestas_foldl) simp
  then obtain message' where "map_of (respuestas (foldl corr_step s evs)) m = Some message'"
    by blast
  then show "\<exists>message'. map_of (respuestas (foldl corr_step s evs)) m = Some message' \<and>
         get_respuesta m w (foldl corr_step s evs) =
           (Responded (Reply message'),
            (foldl corr_step s evs)\<lparr>responses := responses (foldl corr_step s evs) @ [(w, Reply message')]\<rparr>)"
    by (simp add: get_respuesta_def)
next
  assume "map_of (respuestas s) m = None \<and> \<not> estaEsperando s m"
  then show "get_respuesta m w s = (Responded NotFound, s\<lparr>responses := responses s @ [(w, NotFound)]\<rparr>)"
    by (simp add: get_respuesta_def)
qed

theorem awaitReply_cached_witness:
  "map_of (respuestas (corr_run [Esperar ''c'' (sent ''m''), Inbound \<lparr>m_from = ''c'', m_body = ''pong''\<rparr>])) ''m'' =
     Some \<lparr>m_from = ''c'', m_body = ''pong''\<rparr> \<and>
   fst (get_respuesta ''m'' 5
     (foldl corr_step (corr_run [Esperar ''c'' (sent ''m''), Inbound \<lparr>m_from = ''c'', m_body = ''pong''\<rparr>])
        [Deadline 0, Esperar ''c'' (sent ''n''), Inbound \<lparr>m_from = ''c'', m_body = ''otro''\<rparr>])) =
     Responded (Reply \<lparr>m_from = ''c'', m_body = ''pong''\<rparr>) \<and>
   map_of (respuestas (corr_run [Esperar ''c'' (sent ''m''), Inbound \<lparr>m_from = ''c'', m_body = ''pong''\<rparr>])) ''x'' = None \<and>
   \<not> estaEsperando (corr_run [Esperar ''c'' (sent ''m''), Inbound \<lparr>m_from = ''c'', m_body = ''pong''\<rparr>]) ''x'' \<and>
   fst (get_respuesta ''x'' 6 (corr_run [Esperar ''c'' (sent ''m''), Inbound \<lparr>m_from = ''c'', m_body = ''pong''\<rparr>])) =
     Responded NotFound"
  using awaitReply_cached [where s = "corr_run [Esperar ''c'' (sent ''m''), Inbound \<lparr>m_from = ''c'', m_body = ''pong''\<rparr>]"
      and m = "''m''" and message = "\<lparr>m_from = ''c'', m_body = ''pong''\<rparr>" and w = 5
      and evs = "[Deadline 0, Esperar ''c'' (sent ''n''), Inbound \<lparr>m_from = ''c'', m_body = ''otro''\<rparr>]"]
    awaitReply_cached [where s = "corr_run [Esperar ''c'' (sent ''m''), Inbound \<lparr>m_from = ''c'', m_body = ''pong''\<rparr>]"
      and m = "''x''" and w = 6 and evs = "[]"]
  by (simp add: corr_eval)














text \<open>A deadline whose chat no longer maps to its identifier answers no waiter and removes no
  entry of \<^verbatim>\<open>resolvers\<close>.\<close>

lemma deadline_superseded:
  assumes "map_of (timers s) timeoutId = Some (chatId, idMensaje)"
    and "map_of (esperas s) chatId \<noteq> Some idMensaje"
  shows "responses (deadline timeoutId s) = responses s"
    and "resolvers (deadline timeoutId s) = resolvers s"
    and "esperas (deadline timeoutId s) = esperas s"
  using assms by (simp_all add: deadline_def)

text \<open>
  \<^bold>\<open>C5\<close>. The run of the claim: \<^verbatim>\<open>/esperar\<close> registers \<open>m1\<close> for chat \<open>c\<close>, request
  7 waits for \<open>m1\<close>, \<^verbatim>\<open>/esperar\<close> registers \<open>m2\<close> for the same chat, request 8 waits
  for \<open>m2\<close>, a message arrives from \<open>c\<close>, and both deadlines fire. The message answers
  request 8, the waiter of \<open>m2\<close>, and not request 7. The deadline of \<open>m1\<close> finds
  \<^verbatim>\<open>esperas.get(c)\<close> different from \<open>m1\<close> and skips the branch that calls the waiters:
  request 7 is never answered, its callback stays in \<^verbatim>\<open>resolvers\<close>, and no timer is left
  that could release it. The same holds when no message arrives at all (second run).
\<close>

theorem superseded_waiter_never_released:
  "responses (corr_run [Esperar ''c'' (sent ''m1''), Respuesta ''m1'' 7, Esperar ''c'' (sent ''m2''),
      Respuesta ''m2'' 8, Inbound \<lparr>m_from = ''c'', m_body = ''pong''\<rparr>, Deadline 0, Deadline 1]) =
     [(8, Reply \<lparr>m_from = ''c'', m_body = ''pong''\<rparr>)] \<and>
   resolvers (corr_run [Esperar ''c'' (sent ''m1''), Respuesta ''m1'' 7, Esperar ''c'' (sent ''m2''),
      Respuesta ''m2'' 8, Inbound \<lparr>m_from = ''c'', m_body = ''pong''\<rparr>, Deadline 0, Deadline 1]) =
     [(''m1'', [7])] \<and>
   timers (corr_run [Esperar ''c'' (sent ''m1''), Respuesta ''m1'' 7, Esperar ''c'' (sent ''m2''),
      Respuesta ''m2'' 8, Inbound \<lparr>m_from = ''c'', m_body = ''pong''\<rparr>, Deadline 0, Deadline 1]) = [] \<and>
   responses (corr_run [Esperar ''c'' (sent ''m1''), Respuesta ''m1'' 7, Esperar ''c'' (sent ''m2''),
      Deadline 0, Deadline 1]) = [] \<and>
   resolvers (corr_run [Esperar ''c'' (sent ''m1''), Respuesta ''m1'' 7, Esperar ''c'' (sent ''m2''),
      Deadline 0, Deadline 1]) = [(''m1'', [7])] \<and>
   timers (corr_run [Esperar ''c'' (sent ''m1''), Respuesta ''m1'' 7, Esperar ''c'' (sent ''m2''),
      Deadline 0, Deadline 1]) = []"
  by (simp add: corr_eval)

section \<open>The session and the send path of main.js\<close>

text \<open>The equations that evaluate a concrete run.\<close>

lemmas mj_eval = mj_run_def main_js_init_def createClient_def initialize_client_def once_ready_def
  destroy_client_def failover_def on_ready_def on_disconnected_def caller_continues_def finish_run_def
  mj_loop.simps enqueueSendOperation_def send_settles_def job_timer_def sessionIds_def calm_def
  new_queue_def runWithTimeout_def timeout_error_def decimal.simps digit_def Let_def

lemma failover_fields:
  "currentSessionIndex (failover P s) = (currentSessionIndex s + 1) mod length sessionIds"
  "client (failover P s) = Some (length (clients s))"
  "length (clients (failover P s)) = Suc (length (clients s))"
  "clients (failover P s) ! length (clients s) =
     \<lparr>sessionId = sessionIds ! ((currentSessionIndex s + 1) mod length sessionIds),
      listeners = [On Qr, On LoadingScreen, On Ready, On AuthFailure, On Disconnected, On MessageEv,
                   Once Ready],
      initialized = True, destroyed = False, ready = False\<rparr>"
  "serverListening (failover P s) = serverListening s"
  "trace (failover P s) = trace s @ [FailoverRun]"
  by (simp_all add: failover_def createClient_def destroy_client_def initialize_client_def
      once_ready_def Let_def nth_append split: option.splits call_end.splits)

lemma failover_old_clients:
  assumes "k < length (clients s)"
  shows "clients (failover P s) ! k =
           (if client s = Some k then (clients s ! k)\<lparr>destroyed := True\<rparr> else clients s ! k)"
  using assms
  by (auto simp: failover_def createClient_def destroy_client_def initialize_client_def
      once_ready_def Let_def nth_append nth_list_update split: option.splits call_end.splits)






lemma sendQueue_on_ready [simp]: "sendQueue (on_ready k s) = sendQueue s"
  by (simp add: on_ready_def Let_def)



lemma session_ok_trace [simp]: "session_ok (s\<lparr>trace := t\<rparr>) = session_ok s"
  by (simp add: session_ok_def)

lemma session_ok_sendQueue [simp]: "session_ok (s\<lparr>sendQueue := q\<rparr>) = session_ok s"
  by (simp add: session_ok_def)











lemma caller_continues_None [simp]: "caller_continues P None s = s"
  by (simp add: caller_continues_def)


lemma next_attempt_finish_run [simp]:
  "next_attempt (s\<lparr>sendQueue := finish_run i out (sendQueue s)\<rparr>) = next_attempt s"
  by (simp add: next_attempt_def)

lemma trace_finish_run [simp]:
  "trace (s\<lparr>sendQueue := q\<rparr>) = trace s"
  "currentSessionIndex (s\<lparr>sendQueue := q\<rparr>) = currentSessionIndex s"
  "client (s\<lparr>sendQueue := q\<rparr>) = client s"
  by simp_all





text \<open>
  \<^bold>\<open>C6\<close>. For every state and however \<^verbatim>\<open>destroy()\<close> and \<^verbatim>\<open>initialize()\<close> end
  (resolving, rejecting or throwing): \<^verbatim>\<open>failover\<close> returns; the session index has advanced by
  one modulo the size of the pool and stays inside the pool; \<^verbatim>\<open>client\<close> refers to a new
  object, created with the identity at the new index, with the handlers of \<^verbatim>\<open>qr\<close>,
  \<^verbatim>\<open>loading_screen\<close>, \<^verbatim>\<open>ready\<close>, \<^verbatim>\<open>auth_failure\<close>, \<^verbatim>\<open>disconnected\<close> and
  \<^verbatim>\<open>message\<close> and the one-shot \<^verbatim>\<open>ready\<close> handler registered, initialized, and not yet
  ready; \<^verbatim>\<open>destroy()\<close> has been called on the previous client and no other object has
  changed; the send queue is untouched.
\<close>

theorem failover_effect:
  "let s' = failover P s; n = length (clients s);
       idx = (currentSessionIndex s + 1) mod length sessionIds in
     currentSessionIndex s' = idx \<and>
     idx < length sessionIds \<and>
     client s' = Some n \<and>
     length (clients s') = Suc n \<and>
     clients s' ! n =
       \<lparr>sessionId = sessionIds ! idx,
        listeners = [On Qr, On LoadingScreen, On Ready, On AuthFailure, On Disconnected, On MessageEv,
                     Once Ready],
        initialized = True, destroyed = False, ready = False\<rparr> \<and>
     (\<forall>k < n. clients s' ! k =
        (if client s = Some k then (clients s ! k)\<lparr>destroyed := True\<rparr> else clients s ! k)) \<and>
     sendQueue s' = sendQueue s \<and>
     serverListening s' = serverListening s \<and>
     trace s' = trace s @ [FailoverRun]"
  by (simp add: Let_def failover_fields failover_old_clients) (simp add: sessionIds_def)

theorem failover_effect_witness:
  "failover \<lparr>destroy_ends = Throws, initialize_ends = Throws\<rparr> (main_js_init calm :: nat main_js) =
     \<lparr>sendQueue = new_queue,
      clients =
        [\<lparr>sessionId = ''numero1'',
          listeners = [On Qr, On LoadingScreen, On Ready, On AuthFailure, On Disconnected, On MessageEv,
                       Once Ready],
          initialized = True, destroyed = True, ready = False\<rparr>,
         \<lparr>sessionId = ''numero2'',
          listeners = [On Qr, On LoadingScreen, On Ready, On AuthFailure, On Disconnected, On MessageEv,
                       Once Ready],
          initialized = True, destroyed = False, ready = False\<rparr>],
      client = Some 1, currentSessionIndex = 1, serverListening = False,
      console_error = [''Error en destroy:'', ''Error al initialize en failover:''],
      trace = [FailoverRun]\<rparr> \<and>
   currentSessionIndex (failover calm (failover \<lparr>destroy_ends = Rejects, initialize_ends = Resolves\<rparr>
       (main_js_init calm :: nat main_js))) = 0"
  using failover_effect [of "\<lparr>destroy_ends = Throws, initialize_ends = Throws\<rparr>" "main_js_init calm :: nat main_js"]
  by (simp add: main_js_init_def createClient_def initialize_client_def once_ready_def
      destroy_client_def failover_def sessionIds_def calm_def Let_def)

section \<open>The readiness gate of main.queue.js\<close>

text \<open>The equations that evaluate a concrete run of the variant.\<close>

lemmas q_eval = q_run_def q_init_def q_failover_def processQueue_loop_def processQueue_def q_enqueue_def
  item_settles_def gate_resolved_def ready_listeners_def q_on_ready_def gate_timer_def task_settles_def
  q_on_disconnected_def sessionIds_def Let_def

lemma gated_append:
  "gated prev (xs @ ys) = (gated prev xs \<and> gated (if xs = [] then prev else Some (last xs)) ys)"
  by (induction prev xs rule: gated.induct) auto

lemma invoked_append: "invoked (xs @ ys) = invoked xs @ invoked ys"
  by (induction xs rule: invoked.induct) simp_all

lemma timed_out_append: "timed_out (xs @ ys) = timed_out xs @ timed_out ys"
  by (induction xs rule: timed_out.induct) simp_all

lemma invoked_items: "set (invoked tr) \<subseteq> item_of ` set tr"
  by (induction tr rule: invoked.induct) auto

lemma timed_out_items: "set (timed_out tr) \<subseteq> item_of ` set tr"
  by (induction tr rule: timed_out.induct) auto

lemma fresh_item:
  assumes "\<forall>x \<in> set tr. item_of x < m"
  shows "m \<notin> set (invoked tr)" "m \<notin> set (timed_out tr)"
  using assms invoked_items [of tr] timed_out_items [of tr] by auto

lemma q_inv_loop:
  assumes "q_base m s" "processingQueue s"
  shows "q_inv (processQueue_loop s)"
proof (cases "q_sendQueue s")
  case Nil
  with assms show ?thesis
    unfolding q_inv_def
    by (intro conjI exI [of _ m]) (auto simp: q_base_def processQueue_loop_def)
next
  case (Cons i rest)
  with assms have "[m ..< q_submitted s] = i # rest" by (simp add: q_base_def)
  then have i: "i = m" and rest: "rest = [Suc m ..< q_submitted s]" and lt: "m < q_submitted s"
    by (auto simp: upt_eq_Cons_conv)
  from assms have "\<forall>x \<in> set (q_trace s). item_of x < m" by (simp add: q_base_def)
  then have fresh: "m \<notin> set (invoked (q_trace s))" "m \<notin> set (timed_out (q_trace s))"
    by (rule fresh_item)+
  from assms obtain k where k: "q_client s = Some k" and kn: "k < length (q_sessions s)"
    by (auto simp: q_base_def)
  have loop: "processQueue_loop s =
      (if clientReady s
       then s\<lparr>q_sendQueue := rest, q_trace := q_trace s @ [GateOpen m, TaskInvoked m k],
              q_phase := Running m\<rparr>
       else s\<lparr>q_sendQueue := rest, q_trace := q_trace s @ [GateWait m 60000],
              q_phase := AtGate m (Some k)\<rparr>)"
    by (simp add: processQueue_loop_def Cons i k Let_def)
  from assms have b: "m \<le> q_submitted s" "\<forall>x \<in> set (q_trace s). item_of x < m"
    "gated None (q_trace s)" "set (timed_out (q_trace s)) \<inter> set (invoked (q_trace s)) = {}"
    by (simp_all add: q_base_def)
  show ?thesis
    unfolding q_inv_def loop
    using b fresh lt rest k kn assms(2)
    by (intro conjI exI [of _ "Suc m"])
      (auto simp: q_base_def gated_append invoked_append timed_out_append less_Suc_eq)
qed

lemma q_inv_item_settles:
  assumes "q_base m s" "i < m" "processingQueue s"
  shows "q_inv (item_settles i out s)"
proof -
  from assms(1,2) have "q_base m (s\<lparr>q_trace := q_trace s @ [ItemSettled i out]\<rparr>)"
    by (auto simp: q_base_def gated_append invoked_append timed_out_append)
  then show ?thesis
    unfolding item_settles_def using assms(3) by (intro q_inv_loop) simp_all
qed

lemma phase_ok_mono:
  assumes "phase_ok m n tr ph" "n \<le> n'"
  shows "phase_ok m n' tr ph"
  using assms by (cases ph) (auto split: option.splits)

lemma q_inv_failover:
  assumes "q_inv s"
  shows "q_inv (q_failover s)"
proof -
  from assms obtain m where m: "q_base m s"
    and ph: "phase_ok m (length (q_sessions s)) (q_trace s) (q_phase s)"
    and p: "processingQueue s \<or> (q_phase s = Idle \<and> q_sendQueue s = [])"
    by (auto simp: q_inv_def)
  from m have "q_base m (q_failover s)" by (auto simp: q_base_def q_failover_def Let_def)
  moreover from ph have "phase_ok m (length (q_sessions (q_failover s))) (q_trace (q_failover s))
      (q_phase (q_failover s))"
    by (auto simp: q_failover_def Let_def intro: phase_ok_mono)
  moreover from p have "processingQueue (q_failover s) \<or>
      (q_phase (q_failover s) = Idle \<and> q_sendQueue (q_failover s) = [])"
    by (simp add: q_failover_def Let_def)
  ultimately show ?thesis unfolding q_inv_def by blast
qed

lemma q_inv_clientReady:
  assumes "q_inv s"
  shows "q_inv (s\<lparr>clientReady := b\<rparr>)"
  using assms by (auto simp: q_inv_def q_base_def)

lemma q_inv_enqueue:
  assumes "q_inv s"
  shows "q_inv (q_enqueue s)"
proof (cases "processingQueue s")
  case True
  from assms obtain m where m: "q_base m s" and ph: "phase_ok m (length (q_sessions s)) (q_trace s) (q_phase s)"
    by (auto simp: q_inv_def)
  from m have "q_base m (s\<lparr>q_sendQueue := q_sendQueue s @ [q_submitted s],
      q_submitted := Suc (q_submitted s)\<rparr>)"
    by (auto simp: q_base_def)
  with ph True show ?thesis
    unfolding q_inv_def q_enqueue_def processQueue_def
    by (intro conjI exI [of _ m]) simp_all
next
  case False
  with assms have e: "q_sendQueue s = []" by (auto simp: q_inv_def)
  from assms obtain m where m: "q_base m s" by (auto simp: q_inv_def)
  with e have "[m ..< q_submitted s] = []" by (simp add: q_base_def)
  with m have "m = q_submitted s" by (auto simp: q_base_def)
  with m e have "q_base (q_submitted s) (s\<lparr>q_sendQueue := q_sendQueue s @ [q_submitted s],
      q_submitted := Suc (q_submitted s), processingQueue := True\<rparr>)"
    by (auto simp: q_base_def)
  then have "q_inv (processQueue_loop (s\<lparr>q_sendQueue := q_sendQueue s @ [q_submitted s],
      q_submitted := Suc (q_submitted s), processingQueue := True\<rparr>))"
    by (rule q_inv_loop) simp
  with False show ?thesis by (simp add: q_enqueue_def processQueue_def)
qed

lemma q_inv_gate_timer:
  assumes "q_inv s"
  shows "q_inv (gate_timer i s)"
proof (cases "\<exists>g. q_phase s = AtGate i g")
  case True
  then obtain g where g: "q_phase s = AtGate i g" by blast
  with assms obtain m where m: "q_base m s" "Suc i = m" "i \<notin> set (invoked (q_trace s))"
    and p: "processingQueue s"
    by (auto simp: q_inv_def)
  from m have "q_base m (s\<lparr>q_trace := q_trace s @ [GateTimeout i]\<rparr>)"
    by (auto simp: q_base_def gated_append invoked_append timed_out_append)
  from q_inv_item_settles [OF this, of i] m(2) p g show ?thesis
    by (simp add: gate_timer_def)
next
  case False
  with assms show ?thesis by (auto simp: gate_timer_def split: phase.splits)
qed

lemma q_inv_task_settles:
  assumes "q_inv s"
  shows "q_inv (task_settles i out s)"
proof (cases "q_phase s = Running i")
  case True
  with assms obtain m where m: "q_base m s" "Suc i = m" and p: "processingQueue s"
    by (auto simp: q_inv_def)
  from q_inv_item_settles [OF m(1), of i out] m(2) p True show ?thesis
    by (simp add: task_settles_def)
next
  case False
  with assms show ?thesis by (auto simp: task_settles_def split: phase.splits)
qed

lemma q_inv_gate_resolved:
  assumes "q_inv s" "q_phase s = AtGate i g"
  shows "q_inv (gate_resolved i (s\<lparr>q_trace := q_trace s @ [GateReady i k]\<rparr>))"
proof -
  from assms obtain m where m: "q_base m s" "Suc i = m" "i \<notin> set (timed_out (q_trace s))"
    and p: "processingQueue s"
    by (auto simp: q_inv_def)
  from m(1) obtain k' where k': "q_client s = Some k'" by (auto simp: q_base_def)
  from m have "q_base m (s\<lparr>q_trace := q_trace s @ [GateReady i k, TaskInvoked i k'], q_phase := Running i\<rparr>)"
    by (auto simp: q_base_def gated_append invoked_append timed_out_append)
  with m(2) p show ?thesis
    unfolding q_inv_def gate_resolved_def
    by (intro conjI exI [of _ m]) (simp_all add: k')
qed

lemma q_inv_ready_listeners:
  assumes "q_inv s"
  shows "q_inv (ready_listeners k s)"
  using assms q_inv_gate_resolved [OF assms]
  by (auto simp: ready_listeners_def split: phase.splits option.splits)

lemma q_inv_on_ready:
  assumes "q_inv s"
  shows "q_inv (q_on_ready k s)"
  using assms by (simp add: q_on_ready_def q_inv_ready_listeners q_inv_clientReady)

lemma q_inv_step:
  assumes "q_inv s"
  shows "q_inv (q_step s e)"
  using assms
  by (cases e)
    (simp_all add: q_inv_enqueue q_inv_on_ready q_inv_gate_timer q_inv_task_settles q_inv_failover
      q_on_disconnected_def q_inv_clientReady)

lemma q_inv_init: "q_inv q_init"
  by (simp add: q_inv_def q_base_def q_init_def)

lemma q_inv_run: "q_inv (q_run evs)"
proof (induction evs rule: rev_induct)
  case Nil
  show ?case by (simp add: q_run_def q_inv_init)
next
  case (snoc e evs)
  then show ?case by (simp add: q_run_def q_inv_step)
qed

lemma trace_processQueue_loop: "q_trace (processQueue_loop s) = q_trace s @ next_gate s"
  by (simp add: processQueue_loop_def next_gate_def gate_entry_def Let_def
      split: list.splits option.splits)

lemma next_gate_trace [simp]: "next_gate (s\<lparr>q_trace := tr\<rparr>) = next_gate s"
  by (simp add: next_gate_def gate_entry_def split: list.splits option.splits)

lemma trace_item_settles: "q_trace (item_settles i out s) = q_trace s @ ItemSettled i out # next_gate s"
  by (simp add: item_settles_def trace_processQueue_loop)

lemma trace_enqueue_idle:
  assumes "q_inv s" "\<not> processingQueue s"
  shows "q_trace (q_enqueue s) = q_trace s @ gate_entry s (q_submitted s)"
proof -
  from assms have "q_sendQueue s = []" by (auto simp: q_inv_def)
  with assms(2) show ?thesis
    by (simp add: q_enqueue_def processQueue_def trace_processQueue_loop next_gate_def gate_entry_def
        split: option.splits)
qed

lemma trace_ready_at_gate:
  assumes "q_inv s" "q_phase s = AtGate i (Some k)"
  shows "\<exists>k'. q_client s = Some k' \<and> q_trace (q_on_ready k s) = q_trace s @ [GateReady i k, TaskInvoked i k']"
proof -
  from assms obtain m where "q_base m s" and "phase_ok m (length (q_sessions s)) (q_trace s) (q_phase s)"
    by (auto simp: q_inv_def)
  with assms(2) obtain k' where "q_client s = Some k'" and "k < length (q_sessions s)"
    by (auto simp: q_base_def)
  with assms(2) show ?thesis
    by (simp add: q_on_ready_def ready_listeners_def gate_resolved_def)
qed

lemma trace_ready_other:
  assumes "q_phase s = AtGate i g" "g \<noteq> Some k"
  shows "q_trace (q_on_ready k s) = q_trace s"
  using assms by (cases g) (simp_all add: q_on_ready_def ready_listeners_def)

text \<open>
  What the gate of \<^verbatim>\<open>main.queue.js\<close> does in every run: every invocation of a task
  directly follows the resolution of the gate of its item, and no item whose gate timed out has
  its task invoked. In every reachable state: an item enqueued while the loop is idle passes the
  gate at once exactly when \<^verbatim>\<open>client\<close> is set and \<^verbatim>\<open>clientReady\<close> holds, and
  waits with a timer of 60000 ms otherwise; while item \<open>i\<close> waits at the gate, the timer
  rejects it with \<^verbatim>\<open>Timeout esperando client.ready\<close> without invoking its task and the
  loop takes the next item. The last two conjuncts are where the gate goes wrong: the
  \<^verbatim>\<open>ready\<close> event of the object \<open>k\<close> on which \<^verbatim>\<open>onReady\<close> was registered
  resolves the gate and the task sends on the client \<open>k'\<close> that is current by then, whichever
  it is; and \<^verbatim>\<open>ready\<close> of any other object, the current client included, leaves the item
  waiting.
\<close>

lemma gate_steps:
  fixes evs :: "'v q_event list"
  shows "let s = q_run evs; tr = q_trace s in
     gated None tr \<and>
     set (timed_out tr) \<inter> set (invoked tr) = {} \<and>
     (\<not> processingQueue s \<longrightarrow> q_trace (q_step s QEnqueue) = tr @ gate_entry s (q_submitted s)) \<and>
     (q_phase s = Running i \<longrightarrow>
        q_trace (q_step s (QTaskSettles i out)) = tr @ ItemSettled i out # next_gate s) \<and>
     (q_phase s = AtGate i g \<longrightarrow>
        q_trace (q_step s (QGateTimer i)) =
          tr @ [GateTimeout i, ItemSettled i (Inl (Error ''Timeout esperando client.ready''))] @ next_gate s \<and>
        (\<forall>k. g = Some k \<longrightarrow>
           (\<exists>k'. q_client s = Some k' \<and>
              q_trace (q_step s (QReady k)) = tr @ [GateReady i k, TaskInvoked i k'])) \<and>
        (\<forall>k. g \<noteq> Some k \<longrightarrow> q_trace (q_step s (QReady k)) = tr))"
proof -
  have inv: "q_inv (q_run evs)" by (rule q_inv_run)
  then have 1: "gated None (q_trace (q_run evs))"
    and 2: "set (timed_out (q_trace (q_run evs))) \<inter> set (invoked (q_trace (q_run evs))) = {}"
    by (auto simp: q_inv_def q_base_def)
  show ?thesis
    unfolding Let_def
    using 1 2 trace_enqueue_idle [OF inv] trace_ready_at_gate [OF inv, of i] trace_ready_other [of "q_run evs" i g]
    by (auto simp: task_settles_def gate_timer_def trace_item_settles)
qed

lemma gate_steps_example:
  "q_phase (q_run [QEnqueue, QEnqueue] :: nat main_queue_js) = AtGate 0 (Some 0) \<and>
   q_trace (q_step (q_run [QEnqueue, QEnqueue] :: nat main_queue_js) (QGateTimer 0)) =
     [GateWait 0 60000, GateTimeout 0, ItemSettled 0 (Inl (Error ''Timeout esperando client.ready'')),
      GateWait 1 60000] \<and>
   q_trace (q_step (q_run [QEnqueue, QEnqueue] :: nat main_queue_js) (QReady 0)) =
     [GateWait 0 60000, GateReady 0 0, TaskInvoked 0 0] \<and>
   q_trace (q_run [QEnqueue, QEnqueue, QReady 0, QTaskSettles 0 (Inr (3::nat))]) =
     [GateWait 0 60000, GateReady 0 0, TaskInvoked 0 0, ItemSettled 0 (Inr 3), GateOpen 1, TaskInvoked 1 0]"
  using gate_steps [of "[QEnqueue, QEnqueue] :: nat q_event list" 0 undefined "Some 0"]
  by (simp add: q_eval next_gate_def gate_entry_def)

text \<open>
  \<^bold>\<open>C4\<close> does not hold of the code: a send is attempted on a client that has never emitted
  \<^verbatim>\<open>ready\<close>, in both files, and in \<^verbatim>\<open>main.queue.js\<close> an item is rejected with the
  timeout of the gate although the current client is ready.

  In \<^verbatim>\<open>main.queue.js\<close> the gate registers \<^verbatim>\<open>onReady\<close> on the object that is
  \<^verbatim>\<open>client\<close> when the wait begins, and \<^verbatim>\<open>failover\<close> replaces \<^verbatim>\<open>client\<close> without
  touching the pending wait. A request is enqueued before the first client is ready, so that its
  item waits at the gate, and \<^verbatim>\<open>failover()\<close> runs (from the \<^verbatim>\<open>catch\<close> of an endpoint
  or the handler of \<^verbatim>\<open>disconnected\<close>); the new client is object 1.
  \<^item> The replaced object 0, whose \<^verbatim>\<open>destroy()\<close> is asynchronous, emits \<^verbatim>\<open>ready\<close>:
    \<^verbatim>\<open>onReady\<close> resolves the gate and the task calls \<^verbatim>\<open>client.sendMessage\<close> on object
    1, which has not emitted \<^verbatim>\<open>ready\<close>, with \<^verbatim>\<open>clientReady\<close> false.
  \<^item> The first client disconnects instead, and the new current client 1 emits \<^verbatim>\<open>ready\<close>:
    \<^verbatim>\<open>clientReady\<close> becomes true, but \<^verbatim>\<open>onReady\<close> is registered on object 0 and the
    item stays at the gate; its timer then rejects it with
    \<^verbatim>\<open>Timeout esperando client.ready\<close> and its task is never invoked.

  In \<^verbatim>\<open>main.js\<close> the first client is ready and then disconnects, so that \<^verbatim>\<open>failover\<close>
  creates the second client, which has not emitted \<^verbatim>\<open>ready\<close>; an endpoint enqueues a
  send. The check of \<^verbatim>\<open>enqueueSendOperation\<close>, which its comment calls a quick check
  that the client is ready, only tests that \<^verbatim>\<open>client\<close> is not null, and the send is
  attempted on the second client at once.
\<close>

theorem send_on_client_not_ready:
  "q_trace (q_run [QEnqueue, QFailover, QReady 0] :: nat main_queue_js) =
     [GateWait 0 60000, GateReady 0 0, TaskInvoked 0 1] \<and>
   emitted_ready [QEnqueue, QFailover, QReady 0 :: nat q_event] = [0] \<and>
   q_client (q_run [QEnqueue, QFailover, QReady 0] :: nat main_queue_js) = Some 1 \<and>
   \<not> clientReady (q_run [QEnqueue, QFailover, QReady 0] :: nat main_queue_js) \<and>
   q_client (q_run [QEnqueue, QDisconnected 0, QReady 1] :: nat main_queue_js) = Some 1 \<and>
   clientReady (q_run [QEnqueue, QDisconnected 0, QReady 1] :: nat main_queue_js) \<and>
   q_phase (q_run [QEnqueue, QDisconnected 0, QReady 1] :: nat main_queue_js) = AtGate 0 (Some 0) \<and>
   q_trace (q_run [QEnqueue, QDisconnected 0, QReady 1] :: nat main_queue_js) = [GateWait 0 60000] \<and>
   q_trace (q_run [QEnqueue, QDisconnected 0, QReady 1, QGateTimer 0] :: nat main_queue_js) =
     [GateWait 0 60000, GateTimeout 0, ItemSettled 0 (Inl (Error ''Timeout esperando client.ready''))] \<and>
   trace (mj_run calm [(calm, ClientReady 0), (calm, ClientDisconnected 0), (calm, Request 45000 :: nat mj_event)]) =
     [FailoverRun, SendAttempt 0 1] \<and>
   client (mj_run calm [(calm, ClientReady 0), (calm, ClientDisconnected 0), (calm, Request 45000 :: nat mj_event)]) = Some 1 \<and>
   \<not> ready (clients (mj_run calm [(calm, ClientReady 0), (calm, ClientDisconnected 0), (calm, Request 45000 :: nat mj_event)]) ! 1)"
  by (simp add: q_eval mj_eval)
section \<open>The validation of the sending endpoints\<close>




end
